theory Spec2Isabelle
  imports Complex_Main "HOL-Library.AList" "HOL-Library.Multiset"
begin

section \<open>Events and cascades (cascade.py)\<close>

text \<open>
  Python's unbounded integers are \<open>int\<close>. Times are Python floats; they are modelled as
  \<open>real\<close>, that is, every float operation is taken to be exact and no time is NaN.
  The field \<open>root\<close> of the source is called \<open>root_user\<close> here, since \<open>root\<close> is the
  n-th root function of the library.
\<close>

record event =
  user :: int
  parent :: int
  time :: real

text \<open>
  A \<open>Cascade\<close> object holds a reference to its list of events, and the list is an object
  of its own: two cascades may hold the same list, and \<open>sort_events\<close> and \<open>add_event\<close>
  change the list in place. The record below has the fields of the class, with the type
  of the field \<open>events\<close> left open: the address of a list for an object in the store,
  the list itself for what a reader of the object sees.
\<close>

record 'e cascade_of =
  cid :: int
  root_user :: int
  publish_time :: real
  events :: 'e

type_synonym cascade = "event list cascade_of"

type_synonym addr = nat
type_synonym cascade_obj = "addr cascade_of"

text \<open>
  The store: the \<open>Cascade\<close> objects and the list objects, each addressed by its index.
  Creating an object appends it. In a well-formed store every cascade refers to a list of
  the store. \<open>load\<close> reads a cascade with its events.
\<close>

record heap =
  cascades :: "cascade_obj list"
  event_lists :: "event list list"

definition wf_heap :: "heap \<Rightarrow> bool" where
  "wf_heap h \<longleftrightarrow> (\<forall>ob \<in> set (cascades h). events ob < length (event_lists h))"

definition load :: "heap \<Rightarrow> addr \<Rightarrow> cascade" where
  "load h a =
     (let ob = cascades h ! a
      in \<lparr>cid = cid ob, root_user = root_user ob, publish_time = publish_time ob,
          events = event_lists h ! events ob\<rparr>)"

text \<open>
  A new list object, and \<open>Cascade(cid=..., root=..., publish_time=...)\<close>: the field
  \<open>events\<close> has \<open>default_factory=list\<close>, so the constructor makes a new empty list.
  \<open>set_events\<close> is the assignment \<open>obj.events = l\<close>.
\<close>

definition new_list :: "heap \<Rightarrow> event list \<Rightarrow> heap \<times> addr" where
  "new_list h xs = (h\<lparr>event_lists := event_lists h @ [xs]\<rparr>, length (event_lists h))"

definition new_cascade :: "heap \<Rightarrow> int \<Rightarrow> int \<Rightarrow> real \<Rightarrow> heap \<times> addr" where
  "new_cascade h c r t =
     (let (h1, l) = new_list h []
      in (h1\<lparr>cascades := cascades h1 @
                [\<lparr>cid = c, root_user = r, publish_time = t, events = l\<rparr>]\<rparr>,
          length (cascades h1)))"

definition set_events :: "heap \<Rightarrow> addr \<Rightarrow> addr \<Rightarrow> heap" where
  "set_events h a l = h\<lparr>cascades := (cascades h)[a := (cascades h ! a)\<lparr>events := l\<rparr>]\<rparr>"

text \<open>
  \<open>Cascade.sort_events\<close>: \<open>self.events.sort(key=lambda e: e.time)\<close> sorts the list object
  in place. Python's sort is stable and so is \<open>sort_key\<close>. \<open>Cascade.add_event\<close> appends to
  the list object.
\<close>

definition sort_events :: "heap \<Rightarrow> addr \<Rightarrow> heap" where
  "sort_events h self =
     (let l = events (cascades h ! self)
      in h\<lparr>event_lists := (event_lists h)[l := sort_key time (event_lists h ! l)]\<rparr>)"

definition add_event :: "heap \<Rightarrow> addr \<Rightarrow> int \<Rightarrow> int \<Rightarrow> real \<Rightarrow> heap" where
  "add_event h self u p t =
     (let l = events (cascades h ! self)
      in h\<lparr>event_lists :=
             (event_lists h)[l := event_lists h ! l @ [\<lparr>user = u, parent = p, time = t\<rparr>]]\<rparr>)"

definition n_events :: "heap \<Rightarrow> addr \<Rightarrow> nat" where
  "n_events h self = length (event_lists h ! events (cascades h ! self))"

text \<open>
  The slice \<open>xs[:k]\<close> of Python: a negative \<open>k\<close> counts from the end of the list.
\<close>

definition slice_to :: "'a list \<Rightarrow> int \<Rightarrow> 'a list" where
  "slice_to xs k =
     (if k < 0 then take (nat (int (length xs) + k)) xs else take (nat k) xs)"

text \<open>
  \<open>Cascade.get_k_prefix\<close> takes the store and the address of \<open>self\<close>, and returns the
  store after the call with the address of the new prefix, or \<open>None\<close>. The slice
  \<open>self.events[:k]\<close> is a new list and \<open>.copy()\<close> makes another one, which the prefix
  gets.
\<close>

definition get_k_prefix :: "heap \<Rightarrow> addr \<Rightarrow> int \<Rightarrow> heap \<times> addr option" where
  "get_k_prefix h self k =
     (let h1 = sort_events h self
      in if int (length (event_lists h1 ! events (cascades h1 ! self))) < k then (h1, None)
         else
           let me = cascades h1 ! self;
               (h2, prefix) = new_cascade h1 (cid me) (root_user me) (publish_time me);
               (h3, sl) = new_list h2 (slice_to (event_lists h2 ! events (cascades h2 ! self)) k);
               (h4, cp) = new_list h3 (event_lists h3 ! sl)
           in (set_events h4 prefix cp, Some prefix))"

text \<open>
  \<open>earliest_event_by_user\<close>: the dictionary \<open>by_user\<close> keeps insertion order, and
  assigning to an existing key keeps the key's position; this is \<open>AList.update\<close> on an
  association list. \<open>list(by_user.values())\<close> is \<open>map snd\<close>.
\<close>

fun earliest_loop :: "event list \<Rightarrow> (int \<times> event) list \<Rightarrow> (int \<times> event) list" where
  "earliest_loop [] by_user = by_user"
| "earliest_loop (ev # evs) by_user =
     (case map_of by_user (user ev) of
        None \<Rightarrow> earliest_loop evs (AList.update (user ev) ev by_user)
      | Some old \<Rightarrow>
          if time ev < time old
          then earliest_loop evs (AList.update (user ev) ev by_user)
          else earliest_loop evs by_user)"

definition earliest_event_by_user :: "event list \<Rightarrow> event list" where
  "earliest_event_by_user evs = map snd (earliest_loop evs [])"

section \<open>Labels (labels.py)\<close>

text \<open>
  \<open>full_sizes.get(cid, 0)\<close> reads the dictionary with the default 0.
\<close>

definition construct_labels :: "cascade list \<Rightarrow> (int \<rightharpoonup> int) \<Rightarrow> int \<Rightarrow> int list" where
  "construct_labels prefixes full_sizes k =
     (let threshold = 2 * k
      in map (\<lambda>pref.
               let final_size = (case full_sizes (cid pref) of None \<Rightarrow> 0 | Some s \<Rightarrow> s)
               in if final_size \<ge> threshold then 1 else 0) prefixes)"

section \<open>The cascade tree (build\_tree.py)\<close>

text \<open>
  An adjacency is a dictionary from a node to the set of its children. The dictionary is
  an association list in insertion order; a set of children is the list of its members
  in the order in which the set is iterated, which Python leaves open. What is proved
  below holds for every such order.
\<close>

type_synonym adjacency = "(int \<times> int list) list"

definition setdefault :: "adjacency \<Rightarrow> int \<Rightarrow> adjacency" where
  "setdefault adj n = (if n \<in> fst ` set adj then adj else adj @ [(n, [])])"

definition set_add :: "int \<Rightarrow> int list \<Rightarrow> int list" where
  "set_add x xs = (if x \<in> set xs then xs else xs @ [x])"

text \<open>
  One round of the loop of \<open>build_tree\<close>. \<open>adj[event.parent].add(event.user)\<close> changes
  the set stored under the parent, which is present after the two \<open>setdefault\<close> calls.
\<close>

definition add_edge :: "event \<Rightarrow> adjacency \<Rightarrow> adjacency" where
  "add_edge ev adj =
     AList.map_entry (parent ev) (set_add (user ev))
       (setdefault (setdefault adj (parent ev)) (user ev))"

definition build_tree :: "cascade \<Rightarrow> adjacency" where
  "build_tree c = fold add_edge (events c) (setdefault [] (root_user c))"

definition children :: "adjacency \<Rightarrow> int \<Rightarrow> int set" where
  "children adj n = (case map_of adj n of None \<Rightarrow> {} | Some cs \<Rightarrow> set cs)"

section \<open>Depths and structural metrics (build\_tree.py)\<close>

datatype error = KeyError

type_synonym depth_map = "(int \<times> int) list"

text \<open>
  \<open>adj.get(node, set())\<close>: the children of a node, none for a node that is no key.
\<close>

definition get_children :: "adjacency \<Rightarrow> int \<Rightarrow> int list" where
  "get_children adj node = (case map_of adj node of None \<Rightarrow> [] | Some cs \<Rightarrow> cs)"

text \<open>
  \<open>d[k]\<close> raises \<open>KeyError\<close> for a key that is absent.
\<close>

definition getitem :: "('k \<times> 'v) list \<Rightarrow> 'k \<Rightarrow> error + 'v" where
  "getitem d k = (case map_of d k of None \<Rightarrow> Inl KeyError | Some v \<Rightarrow> Inr v)"

text \<open>
  The \<open>for child in ...\<close> loop of \<open>compute_depths\<close>, over the children still to visit.
  Both \<open>depths[child]\<close> and \<open>depths[current]\<close> are read in every round, the first one
  first, and each of them raises for a missing key. \<open>depths[current]\<close> is read from the
  dictionary as it is in that round.
\<close>

fun visit_children ::
  "int \<Rightarrow> int list \<Rightarrow> depth_map \<Rightarrow> int list \<Rightarrow> error + (depth_map \<times> int list)" where
  "visit_children current [] depths queue = Inr (depths, queue)"
| "visit_children current (child # cs) depths queue =
     (case getitem depths child of
        Inl e \<Rightarrow> Inl e
      | Inr dc \<Rightarrow>
          (case getitem depths current of
             Inl e \<Rightarrow> Inl e
           | Inr du \<Rightarrow>
               if dc = - 1 \<or> dc > du + 1
               then visit_children current cs
                      (AList.update child (du + 1) depths) (queue @ [child])
               else visit_children current cs depths queue))"

text \<open>
  The \<open>while queue\<close> loop. It is a partial function: \<open>None\<close> stands for a loop that
  never ends, \<open>Some (Inl e)\<close> for an exception, \<open>Some (Inr depths)\<close> for the depths at
  the end of the loop.
\<close>

partial_function (option) bfs_loop ::
  "adjacency \<Rightarrow> depth_map \<Rightarrow> int list \<Rightarrow> (error + depth_map) option" where
  "bfs_loop adj depths queue =
     (case queue of
        [] \<Rightarrow> Some (Inr depths)
      | current # rest \<Rightarrow>
          (case visit_children current (get_children adj current) depths rest of
             Inl e \<Rightarrow> Some (Inl e)
           | Inr (depths', queue') \<Rightarrow> bfs_loop adj depths' queue'))"

declare bfs_loop.simps [code]

text \<open>
  The argument \<open>root\<close> of the source is called \<open>r\<close> in what follows.
\<close>

definition compute_depths :: "adjacency \<Rightarrow> int \<Rightarrow> (error + depth_map) option" where
  "compute_depths adj r =
     (let depths = map (\<lambda>(node, cs). (node, - 1)) adj
      in if r \<notin> fst ` set adj then Some (Inr depths)
         else bfs_loop adj (AList.update r 0 depths) [r])"

text \<open>
  In an adjacency that satisfies \<open>children_are_keys\<close> every child is itself a key, as
  in every adjacency that \<open>build_tree\<close> returns. The edges of an adjacency lead from a
  key to its children.
\<close>

definition children_are_keys :: "adjacency \<Rightarrow> bool" where
  "children_are_keys adj \<longleftrightarrow> (\<forall>(n, cs) \<in> set adj. set cs \<subseteq> fst ` set adj)"

definition edges :: "adjacency \<Rightarrow> (int \<times> int) set" where
  "edges adj = {(u, v). v \<in> children adj u}"

text \<open>
  The metrics are a dictionary from the name of a metric to a float; the floats are
  modelled as reals, so \<open>sum / len\<close> is the exact quotient. The source reads
  \<open>depths[node]\<close> for the reachable nodes three times, for the maximum, for the average
  and for \<open>wiener\<close>; so does the model.
\<close>

type_synonym metrics = "(string \<times> real) list"

definition no_tree :: metrics where
  "no_tree = [(''depth'', 0), (''avg_depth'', 0), (''leaves'', 1),
              (''branching_factor'', 0), (''wiener_root_avg'', 0)]"

text \<open>
  \<open>[d[k] for k in ks]\<close>, stopping at the first key that raises.
\<close>

fun getitems :: "('k \<times> 'v) list \<Rightarrow> 'k list \<Rightarrow> error + 'v list" where
  "getitems d [] = Inr []"
| "getitems d (k # ks) =
     (case getitem d k of
        Inl e \<Rightarrow> Inl e
      | Inr v \<Rightarrow> (case getitems d ks of Inl e \<Rightarrow> Inl e | Inr vs \<Rightarrow> Inr (v # vs)))"

definition structural_metrics :: "adjacency \<Rightarrow> int \<Rightarrow> (error + metrics) option" where
  "structural_metrics adj r =
     (if r \<notin> fst ` set adj then Some (Inr no_tree)
      else
        case compute_depths adj r of
          None \<Rightarrow> None
        | Some (Inl e) \<Rightarrow> Some (Inl e)
        | Some (Inr depths) \<Rightarrow>
            let reachable = map fst (filter (\<lambda>(node, d). d \<ge> 0) depths)
            in if reachable = [] then Some (Inr no_tree)
               else
                 case getitems depths reachable of
                   Inl e \<Rightarrow> Some (Inl e)
                 | Inr ms \<Rightarrow>
                     let max_depth = Max (set ms)
                     in case getitems depths reachable of
                          Inl e \<Rightarrow> Some (Inl e)
                        | Inr ds \<Rightarrow>
                            let avg_depth = real_of_int (sum_list ds) / real (length reachable);
                                leaves = filter (\<lambda>node. length (get_children adj node) = 0)
                                           reachable;
                                n_leaves = real (length leaves);
                                non_leaves = filter (\<lambda>node. length (get_children adj node) > 0)
                                               reachable
                            in case (if non_leaves \<noteq> []
                                     then (case getitems adj non_leaves of
                                             Inl e \<Rightarrow> Inl e
                                           | Inr css \<Rightarrow>
                                               Inr (real (sum_list (map length css)) /
                                                    real (length non_leaves)))
                                     else Inr 0) of
                                 Inl e \<Rightarrow> Some (Inl e)
                               | Inr branching \<Rightarrow>
                                   (case getitems depths reachable of
                                      Inl e \<Rightarrow> Some (Inl e)
                                    | Inr ws \<Rightarrow>
                                        let wiener = real_of_int (sum_list ws) /
                                                     real (length reachable)
                                        in Some (Inr [(''depth'', real_of_int max_depth),
                                                      (''avg_depth'', avg_depth),
                                                      (''leaves'', n_leaves),
                                                      (''branching_factor'', branching),
                                                      (''wiener_root_avg'', wiener)])))"

section \<open>Temporal features (features.py)\<close>

text \<open>
  \<open>np.diff\<close>, \<open>np.mean\<close> and \<open>np.var\<close> (the population variance) on a list of reals.
  The source calls the last two on non-empty arrays only.
\<close>

fun np_diff :: "real list \<Rightarrow> real list" where
  "np_diff (a # b # xs) = (b - a) # np_diff (b # xs)"
| "np_diff xs = []"

definition np_mean :: "real list \<Rightarrow> real" where
  "np_mean xs = sum_list xs / real (length xs)"

definition np_var :: "real list \<Rightarrow> real" where
  "np_var xs = np_mean (map (\<lambda>x. (x - np_mean xs)\<^sup>2) xs)"

definition temporal_features :: "cascade \<Rightarrow> (string \<times> real) list" where
  "temporal_features prefix =
     (let evs = events prefix;
          k = length evs;
          t_k = (if k > 0 then time (last evs) else 0);
          (mean_diff, var_diff, half_ratio, speed_change) =
            (if k > 1 then
               let times = map time evs;
                   diffs = np_diff times;
                   mean_diff = np_mean diffs;
                   var_diff = np_var diffs;
                   half_k = k div 2;
                   t_half = (if half_k \<ge> 1 then times ! (half_k - 1) else 0);
                   half_ratio = (if t_k > 0 then t_half / t_k else 0);
                   first_diffs = (if half_k > 0 then take half_k diffs else []);
                   second_diffs = (if half_k < length diffs then drop half_k diffs else []);
                   speed_change =
                     (if length second_diffs = 0 then 0
                      else
                        let first_mean = (if length first_diffs > 0 then np_mean first_diffs
                                          else mean_diff);
                            second_mean = np_mean second_diffs
                        in if second_mean > 0 then first_mean / second_mean else 0)
               in (mean_diff, var_diff, half_ratio, speed_change)
             else (0, 0, 0, 0))
      in [(''time_to_k'', t_k), (''mean_inter_time'', mean_diff),
          (''var_inter_time'', var_diff), (''half_life_ratio'', half_ratio),
          (''speed_change'', speed_change)])"

section \<open>Predicates for the proofs\<close>

text \<open>
  \<open>first_min evs e\<close>: the event \<open>e\<close> is, in the order of the list, the first one among
  the events of its user that have the least time.
\<close>

definition first_min :: "event list \<Rightarrow> event \<Rightarrow> bool" where
  "first_min evs e \<longleftrightarrow>
     (\<exists>i < length evs. evs ! i = e \<and>
        (\<forall>j < length evs. user (evs ! j) = user e \<longrightarrow> time e \<le> time (evs ! j)) \<and>
        (\<forall>j < i. user (evs ! j) = user e \<longrightarrow> time e < time (evs ! j)))"

text \<open>
  The invariant of the loop of \<open>earliest_event_by_user\<close>, after the events \<open>pre\<close>.
\<close>

definition loop_inv :: "event list \<Rightarrow> (int \<times> event) list \<Rightarrow> bool" where
  "loop_inv pre by_user \<longleftrightarrow>
     map fst by_user = rev (remdups (rev (map user pre))) \<and>
     (\<forall>u e. map_of by_user u = Some e \<longrightarrow> user e = u \<and> first_min pre e)"

text \<open>
  Every set of children is held without duplicates.
\<close>

definition sets_distinct :: "adjacency \<Rightarrow> bool" where
  "sets_distinct adj \<longleftrightarrow> (\<forall>n cs. map_of adj n = Some cs \<longrightarrow> distinct cs)"


text \<open>
  The invariant of the \<open>while\<close> loop of \<open>compute_depths\<close>, for the nodes \<open>waiting\<close> in the
  queue (with the node in work): the depth of the root is 0, every depth that is set is
  the length of a walk from the root, every waiting node has its depth set, and the
  children of a node with its depth set that is not waiting have their depths set, at
  most one more than its own. \<open>visited\<close> says the same of the children \<open>done\<close> of the
  node in work.
\<close>

definition bfs_inv :: "adjacency \<Rightarrow> int \<Rightarrow> depth_map \<Rightarrow> int set \<Rightarrow> bool" where
  "bfs_inv adj r depths waiting \<longleftrightarrow>
     map fst depths = map fst adj \<and>
     map_of depths r = Some 0 \<and>
     (\<forall>v d. map_of depths v = Some d \<longrightarrow> d = - 1 \<or> (0 \<le> d \<and> (r, v) \<in> edges adj ^^ nat d)) \<and>
     (\<forall>u \<in> waiting. \<exists>d. map_of depths u = Some d \<and> 0 \<le> d) \<and>
     (\<forall>u du c. map_of depths u = Some du \<and> 0 \<le> du \<and> u \<notin> waiting \<and> c \<in> children adj u \<longrightarrow>
        (\<exists>dc. map_of depths c = Some dc \<and> 0 \<le> dc \<and> dc \<le> du + 1))"

definition visited :: "depth_map \<Rightarrow> int \<Rightarrow> int set \<Rightarrow> bool" where
  "visited depths cur done \<longleftrightarrow>
     (\<forall>c \<in> done. \<exists>dc du. map_of depths cur = Some du \<and> map_of depths c = Some dc \<and>
        0 \<le> dc \<and> dc \<le> du + 1)"

text \<open>
  The measure of the loop: the number of nodes without a depth, then the sum of the depths
  that are set, then the length of the queue.
\<close>

definition undiscovered :: "depth_map \<Rightarrow> nat" where
  "undiscovered depths = length (filter (\<lambda>(v, d). d = - 1) depths)"

definition depth_sum :: "depth_map \<Rightarrow> nat" where
  "depth_sum depths = sum_list (map (\<lambda>(v, d). nat d) depths)"

definition smaller :: "depth_map \<Rightarrow> depth_map \<Rightarrow> bool" where
  "smaller d' d \<longleftrightarrow>
     undiscovered d' < undiscovered d \<or>
     (undiscovered d' = undiscovered d \<and> depth_sum d' < depth_sum d)"

definition bfs_rel :: "((depth_map \<times> int list) \<times> (depth_map \<times> int list)) set" where
  "bfs_rel = inv_image (less_than <*lex*> less_than <*lex*> less_than)
               (\<lambda>(d, q). (undiscovered d, depth_sum d, length q))"

text \<open>
  What the \<open>for\<close> loop over the children of \<open>cur\<close> establishes.
\<close>

definition inner_post ::
  "adjacency \<Rightarrow> int \<Rightarrow> int \<Rightarrow> int set \<Rightarrow> depth_map \<Rightarrow> int list \<Rightarrow> depth_map \<times> int list \<Rightarrow> bool" where
  "inner_post adj r cur done depths queue res \<longleftrightarrow>
     bfs_inv adj r (fst res) (insert cur (set (snd res))) \<and>
     visited (fst res) cur done \<and>
     (res = (depths, queue) \<or> smaller (fst res) depths)"


section \<open>Prefixes\<close>

lemma get_k_prefix_none:
  assumes "self < length (cascades h)" and "events (cascades h ! self) < length (event_lists h)"
    and "int (length (event_lists h ! events (cascades h ! self))) < k"
  shows "get_k_prefix h self k = (sort_events h self, None)"
  using assms by (simp add: get_k_prefix_def sort_events_def Let_def)

lemma get_k_prefix_some:
  assumes "self < length (cascades h)" and "events (cascades h ! self) < length (event_lists h)"
    and "\<not> int (length (event_lists h ! events (cascades h ! self))) < k"
  shows "get_k_prefix h self k =
           (\<lparr>cascades = cascades h @
               [\<lparr>cid = cid (cascades h ! self), root_user = root_user (cascades h ! self),
                 publish_time = publish_time (cascades h ! self),
                 events = length (event_lists h) + 2\<rparr>],
             event_lists = (event_lists h)[events (cascades h ! self) :=
                        sort_key time (event_lists h ! events (cascades h ! self))] @
                     [[], slice_to (sort_key time (event_lists h ! events (cascades h ! self))) k,
                      slice_to (sort_key time (event_lists h ! events (cascades h ! self))) k]\<rparr>,
            Some (length (cascades h)))"
  using assms
  by (simp add: get_k_prefix_def sort_events_def new_cascade_def new_list_def set_events_def
        Let_def nth_append)

lemma wf_heap_ref: "wf_heap h \<Longrightarrow> a < length (cascades h) \<Longrightarrow> events (cascades h ! a) < length (event_lists h)"
  unfolding wf_heap_def by simp

lemma sorted_take_drop_le:
  assumes "sorted (map f xs)" and "a \<in> set (take n xs)" and "b \<in> set (drop n xs)"
  shows "f a \<le> f b"
proof -
  have "sorted (map f (take n xs) @ map f (drop n xs))"
    using assms(1) by (simp flip: map_append)
  then show ?thesis
    using assms(2,3) by (auto simp: sorted_append)
qed

lemma load_sort_events_self:
  assumes "events (cascades h ! self) < length (event_lists h)"
  shows "load (sort_events h self) self = (load h self)\<lparr>events := sort_key time (events (load h self))\<rparr>"
  using assms by (simp add: load_def sort_events_def Let_def)

lemma load_get_k_prefix_self:
  assumes w: "wf_heap h" and s: "self < length (cascades h)"
  shows "load (fst (get_k_prefix h self k)) self =
           (load h self)\<lparr>events := sort_key time (events (load h self))\<rparr>"
    and "cascades (fst (get_k_prefix h self k)) ! self = cascades h ! self"
proof -
  have l: "events (cascades h ! self) < length (event_lists h)"
    using w s by (rule wf_heap_ref)
  show "load (fst (get_k_prefix h self k)) self =
           (load h self)\<lparr>events := sort_key time (events (load h self))\<rparr>"
  proof (cases "int (length (event_lists h ! events (cascades h ! self))) < k")
    case True
    then show ?thesis
      using s l by (simp add: get_k_prefix_none load_sort_events_self)
  next
    case False
    then show ?thesis
      using s l by (simp add: get_k_prefix_some load_def Let_def nth_append)
  qed
  show "cascades (fst (get_k_prefix h self k)) ! self = cascades h ! self"
  proof (cases "int (length (event_lists h ! events (cascades h ! self))) < k")
    case True
    then show ?thesis
      using s l by (simp add: get_k_prefix_none sort_events_def Let_def)
  next
    case False
    then show ?thesis
      using s l by (simp add: get_k_prefix_some nth_append)
  qed
qed

lemma get_k_prefix_new:
  assumes w: "wf_heap h" and s: "self < length (cascades h)"
    and r: "snd (get_k_prefix h self k) = Some p"
  shows "p = length (cascades h)"
    and "length (cascades (fst (get_k_prefix h self k))) = Suc (length (cascades h))"
    and "length (event_lists h) \<le> events (cascades (fst (get_k_prefix h self k)) ! p)"
    and "events (cascades (fst (get_k_prefix h self k)) ! p) < length (event_lists (fst (get_k_prefix h self k)))"
    and "load (add_event (fst (get_k_prefix h self k)) p u pa t) self = load (fst (get_k_prefix h self k)) self"
    and "load (sort_events (fst (get_k_prefix h self k)) p) self = load (fst (get_k_prefix h self k)) self"
    and "load (add_event (fst (get_k_prefix h self k)) self u pa t) p = load (fst (get_k_prefix h self k)) p"
    and "load (sort_events (fst (get_k_prefix h self k)) self) p = load (fst (get_k_prefix h self k)) p"
proof -
  have l: "events (cascades h ! self) < length (event_lists h)"
    using w s by (rule wf_heap_ref)
  have nn: "\<not> int (length (event_lists h ! events (cascades h ! self))) < k"
  proof
    assume "int (length (event_lists h ! events (cascades h ! self))) < k"
    then have "snd (get_k_prefix h self k) = None"
      using s l by (simp add: get_k_prefix_none)
    then show False using r by simp
  qed
  note e = get_k_prefix_some [OF s l nn]
  show p: "p = length (cascades h)" using r by (simp add: e)
  show "length (cascades (fst (get_k_prefix h self k))) = Suc (length (cascades h))"
    by (simp add: e)
  show "length (event_lists h) \<le> events (cascades (fst (get_k_prefix h self k)) ! p)"
    by (simp add: e p)
  show "events (cascades (fst (get_k_prefix h self k)) ! p) < length (event_lists (fst (get_k_prefix h self k)))"
    by (simp add: e p)
  show "load (add_event (fst (get_k_prefix h self k)) p u pa t) self = load (fst (get_k_prefix h self k)) self"
    using s l by (simp add: e p load_def add_event_def Let_def nth_append)
  show "load (sort_events (fst (get_k_prefix h self k)) p) self = load (fst (get_k_prefix h self k)) self"
    using s l by (simp add: e p load_def sort_events_def Let_def nth_append)
  show "load (add_event (fst (get_k_prefix h self k)) self u pa t) p = load (fst (get_k_prefix h self k)) p"
    using s l by (simp add: e p load_def add_event_def Let_def nth_append)
  show "load (sort_events (fst (get_k_prefix h self k)) self) p = load (fst (get_k_prefix h self k)) p"
    using s l by (simp add: e p load_def sort_events_def Let_def nth_append)
qed

text \<open>
  Two cascades that hold the same list: sorting on behalf of the first one is seen through
  the second one as well.
\<close>

lemma get_k_prefix_shared_list:
  "events (load (fst (get_k_prefix
       \<lparr>cascades = [\<lparr>cid = 1, root_user = 0, publish_time = 0, events = 0\<rparr>,
                    \<lparr>cid = 2, root_user = 7, publish_time = 0, events = 0\<rparr>],
        event_lists = [[\<lparr>user = 2, parent = 0, time = 5\<rparr>,
                        \<lparr>user = 3, parent = 0, time = 1\<rparr>]]\<rparr> 0 1)) 1)
   = [\<lparr>user = 3, parent = 0, time = 1\<rparr>, \<lparr>user = 2, parent = 0, time = 5\<rparr>]"
  by (simp add: get_k_prefix_def sort_events_def new_cascade_def new_list_def set_events_def
        slice_to_def load_def Let_def)

text \<open>
  C2, as stated, fails: \<open>get_k_prefix\<close> sorts the list of the source in place before it
  slices it. A cascade with the events at times 5 and 1, in this order, holds them in the
  order 1, 5 after \<open>get_k_prefix(1)\<close>.
\<close>

theorem get_k_prefix_sorts_source_counterexample:
  "events (load (fst (get_k_prefix
       \<lparr>cascades = [\<lparr>cid = 1, root_user = 0, publish_time = 0, events = 0\<rparr>],
        event_lists = [[\<lparr>user = 2, parent = 0, time = 5\<rparr>, \<lparr>user = 3, parent = 0, time = 1\<rparr>]]\<rparr> 0 1)) 0)
   = [\<lparr>user = 3, parent = 0, time = 1\<rparr>, \<lparr>user = 2, parent = 0, time = 5\<rparr>]"
  by (simp add: get_k_prefix_def sort_events_def new_cascade_def new_list_def set_events_def
        slice_to_def load_def Let_def)

text \<open>
  C2, amended: for every cascade \<open>c\<close> and every \<open>k\<close>, \<open>get_k_prefix(k)\<close> leaves \<open>c\<close> the
  same object with the same list object, so its id, its root and its publish time are
  unchanged; its events are the same events, stably sorted by time, so that also their
  order is unchanged when they were in the order of time. A prefix that is returned is a
  new, independent instance: a new object whose list of events is a new list object, so
  that appending to the prefix or sorting it does not change \<open>c\<close>, and appending to \<open>c\<close>
  or sorting it does not change the prefix.
\<close>

theorem get_k_prefix_frame:
  assumes "wf_heap h" and "self < length (cascades h)"
  shows "cascades (fst (get_k_prefix h self k)) ! self = cascades h ! self \<and>
         cid (load (fst (get_k_prefix h self k)) self) = cid (load h self) \<and>
         root_user (load (fst (get_k_prefix h self k)) self) = root_user (load h self) \<and>
         publish_time (load (fst (get_k_prefix h self k)) self) = publish_time (load h self) \<and>
         events (load (fst (get_k_prefix h self k)) self) = sort_key time (events (load h self)) \<and>
         mset (events (load (fst (get_k_prefix h self k)) self)) = mset (events (load h self)) \<and>
         (sorted (map time (events (load h self))) \<longrightarrow>
            load (fst (get_k_prefix h self k)) self = load h self) \<and>
         (\<forall>p. snd (get_k_prefix h self k) = Some p \<longrightarrow>
            p = length (cascades h) \<and>
            length (cascades (fst (get_k_prefix h self k))) = Suc (length (cascades h)) \<and>
            length (event_lists h) \<le> events (cascades (fst (get_k_prefix h self k)) ! p) \<and>
            events (cascades (fst (get_k_prefix h self k)) ! p) <
              length (event_lists (fst (get_k_prefix h self k))) \<and>
            (\<forall>u pa t.
               load (add_event (fst (get_k_prefix h self k)) p u pa t) self =
                 load (fst (get_k_prefix h self k)) self \<and>
               load (add_event (fst (get_k_prefix h self k)) self u pa t) p =
                 load (fst (get_k_prefix h self k)) p) \<and>
            load (sort_events (fst (get_k_prefix h self k)) p) self =
              load (fst (get_k_prefix h self k)) self \<and>
            load (sort_events (fst (get_k_prefix h self k)) self) p =
              load (fst (get_k_prefix h self k)) p)"
proof -
  note src = load_get_k_prefix_self [OF assms, of k]
  have same: "sorted (map time (events (load h self))) \<longrightarrow>
            load (fst (get_k_prefix h self k)) self = load h self"
    by (simp add: src(1) sort_key_id_if_sorted)
  have new: "\<forall>p. snd (get_k_prefix h self k) = Some p \<longrightarrow>
            p = length (cascades h) \<and>
            length (cascades (fst (get_k_prefix h self k))) = Suc (length (cascades h)) \<and>
            length (event_lists h) \<le> events (cascades (fst (get_k_prefix h self k)) ! p) \<and>
            events (cascades (fst (get_k_prefix h self k)) ! p) <
              length (event_lists (fst (get_k_prefix h self k))) \<and>
            (\<forall>u pa t.
               load (add_event (fst (get_k_prefix h self k)) p u pa t) self =
                 load (fst (get_k_prefix h self k)) self \<and>
               load (add_event (fst (get_k_prefix h self k)) self u pa t) p =
                 load (fst (get_k_prefix h self k)) p) \<and>
            load (sort_events (fst (get_k_prefix h self k)) p) self =
              load (fst (get_k_prefix h self k)) self \<and>
            load (sort_events (fst (get_k_prefix h self k)) self) p =
              load (fst (get_k_prefix h self k)) p"
  proof (intro allI impI)
    fix p assume r: "snd (get_k_prefix h self k) = Some p"
    note n = get_k_prefix_new [OF assms r]
    show "p = length (cascades h) \<and>
            length (cascades (fst (get_k_prefix h self k))) = Suc (length (cascades h)) \<and>
            length (event_lists h) \<le> events (cascades (fst (get_k_prefix h self k)) ! p) \<and>
            events (cascades (fst (get_k_prefix h self k)) ! p) <
              length (event_lists (fst (get_k_prefix h self k))) \<and>
            (\<forall>u pa t.
               load (add_event (fst (get_k_prefix h self k)) p u pa t) self =
                 load (fst (get_k_prefix h self k)) self \<and>
               load (add_event (fst (get_k_prefix h self k)) self u pa t) p =
                 load (fst (get_k_prefix h self k)) p) \<and>
            load (sort_events (fst (get_k_prefix h self k)) p) self =
              load (fst (get_k_prefix h self k)) self \<and>
            load (sort_events (fst (get_k_prefix h self k)) self) p =
              load (fst (get_k_prefix h self k)) p"
      using n(1,2,3,4) n(5,7) n(6) n(8) by (intro conjI allI)
  qed
  show ?thesis
    using same new by (simp add: src)
qed

theorem get_k_prefix_frame_witness:
  "load (fst (get_k_prefix
       \<lparr>cascades = [\<lparr>cid = 1, root_user = 0, publish_time = 0, events = 0\<rparr>,
                   \<lparr>cid = 2, root_user = 7, publish_time = 0, events = 0\<rparr>],
        event_lists = [[\<lparr>user = 2, parent = 0, time = 1\<rparr>, \<lparr>user = 3, parent = 0, time = 5\<rparr>]]\<rparr> 0 1)) 0
   = \<lparr>cid = 1, root_user = 0, publish_time = 0,
       events = [\<lparr>user = 2, parent = 0, time = 1\<rparr>, \<lparr>user = 3, parent = 0, time = 5\<rparr>]\<rparr> \<and>
   snd (get_k_prefix
       \<lparr>cascades = [\<lparr>cid = 1, root_user = 0, publish_time = 0, events = 0\<rparr>,
                   \<lparr>cid = 2, root_user = 7, publish_time = 0, events = 0\<rparr>],
        event_lists = [[\<lparr>user = 2, parent = 0, time = 1\<rparr>, \<lparr>user = 3, parent = 0, time = 5\<rparr>]]\<rparr> 0 1) = Some 2 \<and>
   events (cascades (fst (get_k_prefix
       \<lparr>cascades = [\<lparr>cid = 1, root_user = 0, publish_time = 0, events = 0\<rparr>,
                   \<lparr>cid = 2, root_user = 7, publish_time = 0, events = 0\<rparr>],
        event_lists = [[\<lparr>user = 2, parent = 0, time = 1\<rparr>, \<lparr>user = 3, parent = 0, time = 5\<rparr>]]\<rparr> 0 1)) ! 2) = 3"
proof -
  let ?h = "\<lparr>cascades = [\<lparr>cid = 1, root_user = 0, publish_time = 0, events = 0\<rparr>,
                   \<lparr>cid = 2, root_user = 7, publish_time = 0, events = 0\<rparr>],
        event_lists = [[\<lparr>user = 2, parent = 0, time = 1\<rparr>, \<lparr>user = 3, parent = 0, time = 5\<rparr>]]\<rparr>"
  have w: "wf_heap ?h" by (simp add: wf_heap_def)
  have s: "0 < length (cascades ?h)" by simp
  from get_k_prefix_frame [OF w s, of 1] show ?thesis
    by (simp add: get_k_prefix_def sort_events_def new_cascade_def new_list_def set_events_def
          slice_to_def load_def Let_def)
qed

text \<open>
  C5, as stated, fails for a negative \<open>k\<close>: a cascade with one event has at least
  \<open>-1\<close> events, and \<open>get_k_prefix(-1)\<close> returns a prefix with the events
  \<open>self.events[:-1]\<close>, that is, with no event.
\<close>

theorem get_k_prefix_negative_counterexample:
  "- 1 \<le> int (length (events (load
       \<lparr>cascades = [\<lparr>cid = 1, root_user = 0, publish_time = 0, events = 0\<rparr>],
        event_lists = [[\<lparr>user = 2, parent = 0, time = 1\<rparr>]]\<rparr> 0))) \<and>
   snd (get_k_prefix
       \<lparr>cascades = [\<lparr>cid = 1, root_user = 0, publish_time = 0, events = 0\<rparr>],
        event_lists = [[\<lparr>user = 2, parent = 0, time = 1\<rparr>]]\<rparr> 0 (- 1)) = Some 1 \<and>
   events (load (fst (get_k_prefix
       \<lparr>cascades = [\<lparr>cid = 1, root_user = 0, publish_time = 0, events = 0\<rparr>],
        event_lists = [[\<lparr>user = 2, parent = 0, time = 1\<rparr>]]\<rparr> 0 (- 1))) 1) = []"
  by (simp add: get_k_prefix_def sort_events_def new_cascade_def new_list_def set_events_def
        slice_to_def load_def Let_def)

text \<open>
  C5, amended: for every cascade and every \<open>k \<ge> 0\<close>, \<open>get_k_prefix(k)\<close> returns
  \<open>None\<close> if the cascade has fewer than \<open>k\<close> events; otherwise it returns a new cascade
  with exactly \<open>k\<close> events, the first \<open>k\<close> of the events sorted by time (so they are in
  ascending order of time, and no event left out is earlier than one of them), and with
  the id, the root and the publish time of the source.
\<close>

theorem get_k_prefix_result:
  assumes "wf_heap h" and "self < length (cascades h)" and "0 \<le> k"
  shows "(int (length (events (load h self))) < k \<longrightarrow> snd (get_k_prefix h self k) = None) \<and>
         (k \<le> int (length (events (load h self))) \<longrightarrow>
            snd (get_k_prefix h self k) = Some (length (cascades h)) \<and>
            int (length (events (load (fst (get_k_prefix h self k)) (length (cascades h))))) = k \<and>
            events (load (fst (get_k_prefix h self k)) (length (cascades h))) =
              take (nat k) (sort_key time (events (load h self))) \<and>
            sorted (map time (events (load (fst (get_k_prefix h self k)) (length (cascades h))))) \<and>
            mset (events (load (fst (get_k_prefix h self k)) (length (cascades h)))) +
              mset (drop (nat k) (sort_key time (events (load h self)))) =
              mset (events (load h self)) \<and>
            (\<forall>a \<in> set (events (load (fst (get_k_prefix h self k)) (length (cascades h)))).
               \<forall>b \<in> set (drop (nat k) (sort_key time (events (load h self)))). time a \<le> time b) \<and>
            cid (load (fst (get_k_prefix h self k)) (length (cascades h))) = cid (load h self) \<and>
            root_user (load (fst (get_k_prefix h self k)) (length (cascades h))) =
              root_user (load h self) \<and>
            publish_time (load (fst (get_k_prefix h self k)) (length (cascades h))) =
              publish_time (load h self))"
proof -
  have l: "events (cascades h ! self) < length (event_lists h)"
    using assms(1,2) by (rule wf_heap_ref)
  have ev: "events (load h self) = event_lists h ! events (cascades h ! self)"
    by (simp add: load_def Let_def)
  show ?thesis
  proof (cases "int (length (event_lists h ! events (cascades h ! self))) < k")
    case True
    then show ?thesis
      using assms(2) l by (simp add: get_k_prefix_none ev)
  next
    case False
    let ?s = "sort_key time (event_lists h ! events (cascades h ! self))"
    have pre: "load (fst (get_k_prefix h self k)) (length (cascades h)) =
                 \<lparr>cid = cid (cascades h ! self), root_user = root_user (cascades h ! self),
                   publish_time = publish_time (cascades h ! self), events = take (nat k) ?s\<rparr>"
      using assms(2,3) l False
      by (simp add: get_k_prefix_some load_def Let_def nth_append slice_to_def)
    have r: "snd (get_k_prefix h self k) = Some (length (cascades h))"
      using assms(2) l False by (simp add: get_k_prefix_some)
    have s: "sorted (map time ?s)"
      by (rule sorted_sort_key)
    have st: "sorted (map time (take (nat k) ?s))"
      using s by (simp add: take_map [symmetric] sorted_wrt_take)
    have m: "mset (take (nat k) ?s) + mset (drop (nat k) ?s) =
               mset (event_lists h ! events (cascades h ! self))"
      by (simp flip: mset_append)
    have le: "\<forall>a \<in> set (take (nat k) ?s). \<forall>b \<in> set (drop (nat k) ?s). time a \<le> time b"
      using sorted_take_drop_le [OF s] by blast
    have len: "int (length (take (nat k) ?s)) = k"
      using False assms(3) by simp
    have f: "cid (load h self) = cid (cascades h ! self)"
      "root_user (load h self) = root_user (cascades h ! self)"
      "publish_time (load h self) = publish_time (cascades h ! self)"
      by (simp_all add: load_def Let_def)
    show ?thesis
      using False st m le len by (simp add: pre r ev f)
  qed
qed

theorem get_k_prefix_result_witness:
  "snd (get_k_prefix
       \<lparr>cascades = [\<lparr>cid = 1, root_user = 0, publish_time = 0, events = 0\<rparr>],
        event_lists = [[\<lparr>user = 2, parent = 0, time = 5\<rparr>, \<lparr>user = 3, parent = 0, time = 1\<rparr>]]\<rparr> 0 1) = Some 1 \<and>
   events (load (fst (get_k_prefix
       \<lparr>cascades = [\<lparr>cid = 1, root_user = 0, publish_time = 0, events = 0\<rparr>],
        event_lists = [[\<lparr>user = 2, parent = 0, time = 5\<rparr>, \<lparr>user = 3, parent = 0, time = 1\<rparr>]]\<rparr> 0 1)) 1)
     = [\<lparr>user = 3, parent = 0, time = 1\<rparr>] \<and>
   snd (get_k_prefix
       \<lparr>cascades = [\<lparr>cid = 1, root_user = 0, publish_time = 0, events = 0\<rparr>],
        event_lists = [[\<lparr>user = 2, parent = 0, time = 5\<rparr>, \<lparr>user = 3, parent = 0, time = 1\<rparr>]]\<rparr> 0 3) = None"
proof -
  let ?h = "\<lparr>cascades = [\<lparr>cid = 1, root_user = 0, publish_time = 0, events = 0\<rparr>],
        event_lists = [[\<lparr>user = 2, parent = 0, time = 5\<rparr>, \<lparr>user = 3, parent = 0, time = 1\<rparr>]]\<rparr>"
  have w: "wf_heap ?h" by (simp add: wf_heap_def)
  have s: "0 < length (cascades ?h)" by simp
  have k1: "(0 :: int) \<le> 1" and k3: "(0 :: int) \<le> 3" by simp_all
  from get_k_prefix_result [OF w s k1] get_k_prefix_result [OF w s k3] show ?thesis
    by (simp add: load_def Let_def)
qed

section \<open>Labels\<close>

text \<open>
  C9, as stated, fails for \<open>k \<le> 0\<close>: a cid missing from \<open>full_sizes\<close> has the final size
  0, and \<open>0 \<ge> 2 * k\<close> then, so the label is 1.
\<close>

theorem construct_labels_missing_counterexample:
  "construct_labels [\<lparr>cid = 7, root_user = 1, publish_time = 0, events = []\<rparr>] Map.empty 0 = [1]"
  by (simp add: construct_labels_def)

text \<open>
  C9, amended: \<open>construct_labels\<close> returns one label for each prefix, in the same order;
  the label of a prefix is 1 if its final size is at least \<open>2 * k\<close> and 0 otherwise, where
  the final size is the value of \<open>full_sizes\<close> at its cid, and 0 for a cid that is
  missing. A missing cid has the label 0 whenever \<open>k \<ge> 1\<close>. With
  \<open>full_sizes = {1: 10, 2: 3}\<close> and \<open>k = 5\<close> the prefix with the cid 1 has the label 1
  and the prefix with the cid 2 the label 0.
\<close>

theorem construct_labels_spec:
  "length (construct_labels ps fs k) = length ps \<and>
   (\<forall>i < length ps.
      construct_labels ps fs k ! i =
        (if 2 * k \<le> (case fs (cid (ps ! i)) of None \<Rightarrow> 0 | Some s \<Rightarrow> s) then 1 else 0)) \<and>
   (\<forall>i < length ps. 1 \<le> k \<longrightarrow> fs (cid (ps ! i)) = None \<longrightarrow> construct_labels ps fs k ! i = 0) \<and>
   (cid c1 = 1 \<and> cid c2 = 2 \<longrightarrow> construct_labels [c1, c2] [1 \<mapsto> 10, 2 \<mapsto> 3] 5 = [1, 0])"
  by (simp add: construct_labels_def Let_def)

theorem construct_labels_spec_witness:
  "construct_labels [\<lparr>cid = 1, root_user = 0, publish_time = 0, events = []\<rparr>,
                     \<lparr>cid = 2, root_user = 0, publish_time = 0, events = []\<rparr>,
                     \<lparr>cid = 3, root_user = 0, publish_time = 0, events = []\<rparr>]
     [1 \<mapsto> 10, 2 \<mapsto> 3] 5 ! 2 = 0"
  using construct_labels_spec [of "[\<lparr>cid = 1, root_user = 0, publish_time = 0, events = []\<rparr>,
                     \<lparr>cid = 2, root_user = 0, publish_time = 0, events = []\<rparr>,
                     \<lparr>cid = 3, root_user = 0, publish_time = 0, events = []\<rparr>]" "[1 \<mapsto> 10, 2 \<mapsto> 3]" 5]
  by simp

section \<open>Deduplication\<close>

lemma update_absent: "k \<notin> fst ` set al \<Longrightarrow> AList.update k v al = al @ [(k, v)]"
  by (induction al) auto

lemma first_min_append_other:
  assumes "first_min pre e" and "user x \<noteq> user e"
  shows "first_min (pre @ [x]) e"
proof -
  from assms(1) obtain i where i: "i < length pre" "pre ! i = e"
    "\<forall>j < length pre. user (pre ! j) = user e \<longrightarrow> time e \<le> time (pre ! j)"
    "\<forall>j < i. user (pre ! j) = user e \<longrightarrow> time e < time (pre ! j)"
    unfolding first_min_def by blast
  have "i < length (pre @ [x])" using i(1) by simp
  moreover have "(pre @ [x]) ! i = e" using i(1,2) by (simp add: nth_append)
  moreover have "\<forall>j < length (pre @ [x]). user ((pre @ [x]) ! j) = user e \<longrightarrow> time e \<le> time ((pre @ [x]) ! j)"
    using i(3) assms(2) by (auto simp: nth_append less_Suc_eq)
  moreover have "\<forall>j < i. user ((pre @ [x]) ! j) = user e \<longrightarrow> time e < time ((pre @ [x]) ! j)"
    using i(1,4) by (auto simp: nth_append)
  ultimately show ?thesis unfolding first_min_def by blast
qed

lemma first_min_append_keep:
  assumes "first_min pre e" and "time e \<le> time x"
  shows "first_min (pre @ [x]) e"
proof -
  from assms(1) obtain i where i: "i < length pre" "pre ! i = e"
    "\<forall>j < length pre. user (pre ! j) = user e \<longrightarrow> time e \<le> time (pre ! j)"
    "\<forall>j < i. user (pre ! j) = user e \<longrightarrow> time e < time (pre ! j)"
    unfolding first_min_def by blast
  have "i < length (pre @ [x])" using i(1) by simp
  moreover have "(pre @ [x]) ! i = e" using i(1,2) by (simp add: nth_append)
  moreover have "\<forall>j < length (pre @ [x]). user ((pre @ [x]) ! j) = user e \<longrightarrow> time e \<le> time ((pre @ [x]) ! j)"
    using i(3) assms(2) by (auto simp: nth_append less_Suc_eq)
  moreover have "\<forall>j < i. user ((pre @ [x]) ! j) = user e \<longrightarrow> time e < time ((pre @ [x]) ! j)"
    using i(1,4) by (auto simp: nth_append)
  ultimately show ?thesis unfolding first_min_def by blast
qed

lemma first_min_append_new:
  assumes "\<forall>j < length pre. user (pre ! j) = user x \<longrightarrow> time x < time (pre ! j)"
  shows "first_min (pre @ [x]) x"
proof -
  have "length pre < length (pre @ [x])" by simp
  moreover have "(pre @ [x]) ! length pre = x" by simp
  moreover have "\<forall>j < length (pre @ [x]). user ((pre @ [x]) ! j) = user x \<longrightarrow> time x \<le> time ((pre @ [x]) ! j)"
    using assms by (auto simp: nth_append less_Suc_eq intro: less_imp_le)
  moreover have "\<forall>j < length pre. user ((pre @ [x]) ! j) = user x \<longrightarrow> time x < time ((pre @ [x]) ! j)"
    using assms by (auto simp: nth_append)
  ultimately show ?thesis unfolding first_min_def by blast
qed

lemma loop_inv_keys: "loop_inv pre acc \<Longrightarrow> fst ` set acc = user ` set pre"
proof -
  assume "loop_inv pre acc"
  then have "set (map fst acc) = set (rev (remdups (rev (map user pre))))"
    by (simp add: loop_inv_def)
  then show ?thesis by simp
qed

lemma loop_inv_step:
  assumes "loop_inv pre acc"
  shows "loop_inv (pre @ [x])
           (case map_of acc (user x) of
              None \<Rightarrow> AList.update (user x) x acc
            | Some old \<Rightarrow> if time x < time old then AList.update (user x) x acc else acc)"
proof (cases "map_of acc (user x)")
  case None
  then have new: "user x \<notin> fst ` set acc" by (simp add: map_of_eq_None_iff)
  then have nu: "user x \<notin> user ` set pre" using loop_inv_keys [OF assms] by simp
  have k: "map fst (AList.update (user x) x acc) = rev (remdups (rev (map user (pre @ [x]))))"
    using assms nu new by (simp add: loop_inv_def update_absent)
  have fresh: "\<forall>j < length pre. user (pre ! j) \<noteq> user x"
    using nu by (metis imageI nth_mem)
  have "first_min (pre @ [x]) x"
    by (rule first_min_append_new) (use fresh in blast)
  moreover have "\<And>u e. map_of acc u = Some e \<Longrightarrow> user e = u \<and> first_min (pre @ [x]) e"
  proof -
    fix u e assume m: "map_of acc u = Some e"
    then have ue: "user e = u" "first_min pre e" using assms by (auto simp: loop_inv_def)
    have "u \<in> fst ` set acc" using m by (metis map_of_eq_None_iff option.distinct(1))
    then have "user x \<noteq> user e" using new ue(1) by metis
    then show "user e = u \<and> first_min (pre @ [x]) e"
      using ue first_min_append_other by blast
  qed
  ultimately have "\<forall>u e. map_of (AList.update (user x) x acc) u = Some e \<longrightarrow> user e = u \<and> first_min (pre @ [x]) e"
    by (auto simp: AList.update_conv')
  then show ?thesis using None k by (simp add: loop_inv_def)
next
  case (Some old)
  then have old: "user old = user x" "first_min pre old" using assms by (auto simp: loop_inv_def)
  have inkeys: "user x \<in> fst ` set acc" using Some by (metis map_of_eq_None_iff option.distinct(1))
  then have inpre: "user x \<in> user ` set pre" using loop_inv_keys [OF assms] by simp
  have other: "\<And>u e. map_of acc u = Some e \<Longrightarrow> u \<noteq> user x \<Longrightarrow> user e = u \<and> first_min (pre @ [x]) e"
  proof -
    fix u e assume m: "map_of acc u = Some e" and "u \<noteq> user x"
    then have ue: "user e = u" "first_min pre e" using assms by (auto simp: loop_inv_def)
    then show "user e = u \<and> first_min (pre @ [x]) e"
      using \<open>u \<noteq> user x\<close> first_min_append_other by auto
  qed
  show ?thesis
  proof (cases "time x < time old")
    case True
    have k: "map fst (AList.update (user x) x acc) = rev (remdups (rev (map user (pre @ [x]))))"
      using assms inkeys inpre by (simp add: loop_inv_def AList.update_keys)
    from old(2) have "\<forall>j < length pre. user (pre ! j) = user old \<longrightarrow> time old \<le> time (pre ! j)"
      unfolding first_min_def by blast
    then have "\<forall>j < length pre. user (pre ! j) = user x \<longrightarrow> time x < time (pre ! j)"
      using True old(1) by fastforce
    then have "first_min (pre @ [x]) x" by (rule first_min_append_new)
    then have "\<forall>u e. map_of (AList.update (user x) x acc) u = Some e \<longrightarrow> user e = u \<and> first_min (pre @ [x]) e"
      using other by (auto simp: AList.update_conv')
    then show ?thesis using Some True k by (simp add: loop_inv_def)
  next
    case False
    have k: "map fst acc = rev (remdups (rev (map user (pre @ [x]))))"
      using assms inpre by (simp add: loop_inv_def)
    have "first_min (pre @ [x]) old"
      by (rule first_min_append_keep [OF old(2)]) (use False in simp)
    then have "\<forall>u e. map_of acc u = Some e \<longrightarrow> user e = u \<and> first_min (pre @ [x]) e"
      using other Some by (metis option.inject old(1))
    then show ?thesis using Some False k by (simp add: loop_inv_def)
  qed
qed

lemma earliest_loop_inv:
  "loop_inv pre acc \<Longrightarrow> loop_inv (pre @ xs) (earliest_loop xs acc)"
proof (induction xs arbitrary: pre acc)
  case Nil
  then show ?case by simp
next
  case (Cons x xs)
  have step: "loop_inv (pre @ [x])
           (case map_of acc (user x) of
              None \<Rightarrow> AList.update (user x) x acc
            | Some old \<Rightarrow> if time x < time old then AList.update (user x) x acc else acc)"
    by (rule loop_inv_step [OF Cons.prems])
  have "earliest_loop (x # xs) acc = earliest_loop xs
           (case map_of acc (user x) of
              None \<Rightarrow> AList.update (user x) x acc
            | Some old \<Rightarrow> if time x < time old then AList.update (user x) x acc else acc)"
    by (simp split: option.split)
  then show ?case using Cons.IH [OF step] by simp
qed

lemma earliest_loop_final: "loop_inv evs (earliest_loop evs [])"
  using earliest_loop_inv [of "[]" "[]" evs] by (simp add: loop_inv_def)

lemma loop_inv_entries:
  assumes "loop_inv pre acc" and "(u, e) \<in> set acc"
  shows "user e = u \<and> first_min pre e"
proof -
  have "distinct (map fst acc)" using assms(1) by (simp add: loop_inv_def)
  then have "map_of acc u = Some e" using assms(2) by simp
  then show ?thesis using assms(1) by (simp add: loop_inv_def)
qed

lemma loop_inv_users:
  assumes "loop_inv pre acc"
  shows "map (user \<circ> snd) acc = map fst acc"
proof -
  have "\<forall>p \<in> set acc. user (snd p) = fst p"
    using loop_inv_entries [OF assms] by (metis prod.collapse)
  then show ?thesis by simp
qed

lemma earliest_loop_distinct_users:
  "distinct (map user xs) \<Longrightarrow> user ` set xs \<inter> fst ` set acc = {} \<Longrightarrow>
     earliest_loop xs acc = acc @ map (\<lambda>e. (user e, e)) xs"
proof (induction xs arbitrary: acc)
  case Nil
  then show ?case by simp
next
  case (Cons x xs)
  have n: "user x \<notin> fst ` set acc" using Cons.prems(2) by auto
  then have m: "map_of acc (user x) = None" by (simp add: map_of_eq_None_iff)
  have d: "distinct (map user xs)" using Cons.prems(1) by simp
  have "user ` set xs \<inter> fst ` set (acc @ [(user x, x)]) = {}"
    using Cons.prems by auto
  from Cons.IH [OF d this] show ?case
    using m n by (simp add: update_absent)
qed

text \<open>
  C8: \<open>earliest_event_by_user\<close> is idempotent: applied to its own result it returns that
  result, the same events in the same order.
\<close>

theorem earliest_event_by_user_idempotent:
  "earliest_event_by_user (earliest_event_by_user evs) = earliest_event_by_user evs"
proof -
  let ?R = "earliest_loop evs []"
  have inv: "loop_inv evs ?R" by (rule earliest_loop_final)
  have "map user (map snd ?R) = map fst ?R"
    using loop_inv_users [OF inv] by simp
  moreover have "distinct (map fst ?R)" using inv by (simp add: loop_inv_def)
  ultimately have "distinct (map user (map snd ?R))" by metis
  then have "earliest_loop (map snd ?R) [] = [] @ map (\<lambda>e. (user e, e)) (map snd ?R)"
    by (rule earliest_loop_distinct_users) simp
  then show ?thesis by (simp add: earliest_event_by_user_def comp_def)
qed

theorem earliest_event_by_user_idempotent_witness:
  "earliest_event_by_user (earliest_event_by_user
       [\<lparr>user = 1, parent = 0, time = 3\<rparr>, \<lparr>user = 2, parent = 5, time = 1\<rparr>,
        \<lparr>user = 1, parent = 7, time = 1\<rparr>])
     = [\<lparr>user = 1, parent = 7, time = 1\<rparr>, \<lparr>user = 2, parent = 5, time = 1\<rparr>]"
  using earliest_event_by_user_idempotent
    [of "[\<lparr>user = 1, parent = 0, time = 3\<rparr>, \<lparr>user = 2, parent = 5, time = 1\<rparr>,
          \<lparr>user = 1, parent = 7, time = 1\<rparr>]"]
  by (simp add: earliest_event_by_user_def)

text \<open>
  C10: \<open>earliest_event_by_user\<close> lists the users in the order of their first appearance
  in the input (\<open>remdups\<close> keeps the last copy of an element, so on the reversed list it
  keeps the first), and the event it retains for a user is the first event of the input,
  among the events of this user, that has the least time: no event of the user is earlier,
  and every event of the user before it is strictly later.
\<close>

theorem earliest_event_by_user_first_seen:
  "map user (earliest_event_by_user evs) = rev (remdups (rev (map user evs))) \<and>
   (\<forall>e \<in> set (earliest_event_by_user evs).
      \<exists>i < length evs. evs ! i = e \<and>
        (\<forall>j < length evs. user (evs ! j) = user e \<longrightarrow> time e \<le> time (evs ! j)) \<and>
        (\<forall>j < i. user (evs ! j) = user e \<longrightarrow> time e < time (evs ! j)))"
proof -
  let ?R = "earliest_loop evs []"
  have inv: "loop_inv evs ?R" by (rule earliest_loop_final)
  have "map user (map snd ?R) = map fst ?R"
    using loop_inv_users [OF inv] by simp
  then have "map user (map snd ?R) = rev (remdups (rev (map user evs)))"
    using inv by (simp only: loop_inv_def)
  moreover have "\<forall>e \<in> set (map snd ?R). first_min evs e"
    using loop_inv_entries [OF inv] by auto
  ultimately show ?thesis
    unfolding earliest_event_by_user_def first_min_def by blast
qed

theorem earliest_event_by_user_first_seen_witness:
  "map user (earliest_event_by_user
       [\<lparr>user = 1, parent = 0, time = 3\<rparr>, \<lparr>user = 2, parent = 5, time = 1\<rparr>,
        \<lparr>user = 1, parent = 7, time = 1\<rparr>, \<lparr>user = 1, parent = 8, time = 1\<rparr>]) = [1, 2] \<and>
   earliest_event_by_user
       [\<lparr>user = 1, parent = 0, time = 3\<rparr>, \<lparr>user = 2, parent = 5, time = 1\<rparr>,
        \<lparr>user = 1, parent = 7, time = 1\<rparr>, \<lparr>user = 1, parent = 8, time = 1\<rparr>]
     = [\<lparr>user = 1, parent = 7, time = 1\<rparr>, \<lparr>user = 2, parent = 5, time = 1\<rparr>]"
  using earliest_event_by_user_first_seen
    [of "[\<lparr>user = 1, parent = 0, time = 3\<rparr>, \<lparr>user = 2, parent = 5, time = 1\<rparr>,
          \<lparr>user = 1, parent = 7, time = 1\<rparr>, \<lparr>user = 1, parent = 8, time = 1\<rparr>]"]
  by (simp add: earliest_event_by_user_def)

section \<open>The keys and the children of the tree\<close>

lemma map_of_Some_key: "map_of al k = Some v \<Longrightarrow> k \<in> fst ` set al"
  by (metis map_of_eq_None_iff option.distinct(1))

lemma keys_setdefault: "fst ` set (setdefault adj n) = insert n (fst ` set adj)"
  by (auto simp: setdefault_def)

lemma distinct_setdefault: "distinct (map fst adj) \<Longrightarrow> distinct (map fst (setdefault adj n))"
  by (auto simp: setdefault_def)

lemma map_of_snoc_absent:
  "k \<notin> fst ` set al \<Longrightarrow> map_of (al @ [(k, v)]) = (map_of al)(k \<mapsto> v)"
proof (rule ext)
  fix x
  assume "k \<notin> fst ` set al"
  then have "map_of al k = None" by (simp add: map_of_eq_None_iff)
  then show "map_of (al @ [(k, v)]) x = ((map_of al)(k \<mapsto> v)) x"
    by (cases "map_of al x") (auto simp: map_add_def)
qed

lemma map_of_setdefault:
  "map_of (setdefault adj n) = (if n \<in> fst ` set adj then map_of adj else (map_of adj)(n \<mapsto> []))"
  by (simp add: setdefault_def map_of_snoc_absent del: map_of_append)

lemma children_setdefault: "children (setdefault adj n) m = children adj m"
proof (cases "n \<in> fst ` set adj")
  case True
  then show ?thesis by (simp add: setdefault_def)
next
  case False
  then have none: "map_of adj n = None" by (simp add: map_of_eq_None_iff)
  have "map_of (setdefault adj n) = (map_of adj)(n \<mapsto> [])"
    using False by (simp add: map_of_setdefault)
  then show ?thesis using none by (simp add: children_def)
qed

lemma keys_add_edge:
  "fst ` set (add_edge ev adj) = insert (parent ev) (insert (user ev) (fst ` set adj))"
  by (auto simp: add_edge_def AList.dom_map_entry keys_setdefault)

lemma distinct_add_edge: "distinct (map fst adj) \<Longrightarrow> distinct (map fst (add_edge ev adj))"
  by (simp add: add_edge_def AList.distinct_map_entry distinct_setdefault)

lemma set_set_add: "set (set_add x xs) = insert x (set xs)"
  by (auto simp: set_add_def)

lemma distinct_set_add: "distinct xs \<Longrightarrow> distinct (set_add x xs)"
  by (simp add: set_add_def)

lemma children_map_entry:
  "children (AList.map_entry k (set_add x) adj) m =
     (if k \<in> fst ` set adj \<and> m = k then insert x (children adj k) else children adj m)"
proof (cases "map_of adj k")
  case None
  then have "k \<notin> fst ` set adj" by (simp add: map_of_eq_None_iff)
  moreover have "map_of (AList.map_entry k (set_add x) adj) = map_of adj"
    using None by (simp add: AList.map_of_map_entry fun_eq_iff)
  ultimately show ?thesis by (simp add: children_def)
next
  case (Some v)
  then have "k \<in> fst ` set adj" by (rule map_of_Some_key)
  moreover have "map_of (AList.map_entry k (set_add x) adj) = (map_of adj)(k \<mapsto> set_add x v)"
    using Some by (simp add: AList.map_of_map_entry)
  ultimately show ?thesis using Some by (simp add: children_def set_set_add)
qed

lemma children_add_edge:
  "children (add_edge ev adj) n =
     (if n = parent ev then insert (user ev) (children adj n) else children adj n)"
  by (simp add: add_edge_def children_map_entry keys_setdefault children_setdefault)

lemma sets_distinctD: "sets_distinct adj \<Longrightarrow> map_of adj n = Some cs \<Longrightarrow> distinct cs"
  unfolding sets_distinct_def by blast

lemma sets_distinctI: "(\<And>n cs. map_of adj n = Some cs \<Longrightarrow> distinct cs) \<Longrightarrow> sets_distinct adj"
  unfolding sets_distinct_def by blast

lemma sets_distinct_setdefault:
  assumes "sets_distinct adj"
  shows "sets_distinct (setdefault adj n)"
proof (cases "n \<in> fst ` set adj")
  case True
  then have "setdefault adj n = adj" by (simp add: setdefault_def)
  then show ?thesis using assms by simp
next
  case False
  then have m: "map_of (setdefault adj n) = (map_of adj)(n \<mapsto> [])"
    by (simp add: map_of_setdefault)
  show ?thesis
  proof (rule sets_distinctI)
    fix k cs
    assume a: "map_of (setdefault adj n) k = Some cs"
    show "distinct cs"
    proof (cases "k = n")
      case True
      then have "cs = []" using a m by simp
      then show ?thesis by simp
    next
      case False
      then have "map_of adj k = Some cs" using a m by simp
      then show ?thesis using assms by (rule sets_distinctD [rotated])
    qed
  qed
qed

lemma sets_distinct_map_entry:
  assumes "sets_distinct adj"
  shows "sets_distinct (AList.map_entry k (set_add x) adj)"
proof (rule sets_distinctI)
  fix n cs
  assume m: "map_of (AList.map_entry k (set_add x) adj) n = Some cs"
  show "distinct cs"
  proof (cases "n = k")
    case True
    show ?thesis
    proof (cases "map_of adj k")
      case None
      then show ?thesis using m True by (simp add: AList.map_of_map_entry)
    next
      case (Some v)
      then have "cs = set_add x v" using m True by (simp add: AList.map_of_map_entry)
      moreover have "distinct v" using assms Some by (rule sets_distinctD)
      ultimately show ?thesis by (simp add: distinct_set_add)
    qed
  next
    case False
    then have "map_of adj n = Some cs"
      using m by (simp add: AList.map_of_map_entry)
    then show ?thesis using assms by (rule sets_distinctD [rotated])
  qed
qed

lemma sets_distinct_add_edge:
  assumes "sets_distinct adj"
  shows "sets_distinct (add_edge ev adj)"
proof -
  have "sets_distinct (setdefault adj (parent ev))"
    using assms by (rule sets_distinct_setdefault)
  then have "sets_distinct (setdefault (setdefault adj (parent ev)) (user ev))"
    by (rule sets_distinct_setdefault)
  then show ?thesis
    unfolding add_edge_def by (rule sets_distinct_map_entry)
qed

lemma keys_fold_add_edge:
  "fst ` set (fold add_edge evs adj) = fst ` set adj \<union> parent ` set evs \<union> user ` set evs"
proof (induction evs arbitrary: adj)
  case Nil
  show ?case by simp
next
  case (Cons ev evs)
  have "fst ` set (fold add_edge (ev # evs) adj) =
          fst ` set (add_edge ev adj) \<union> parent ` set evs \<union> user ` set evs"
    using Cons.IH [of "add_edge ev adj"] by simp
  also have "\<dots> = fst ` set adj \<union> parent ` set (ev # evs) \<union> user ` set (ev # evs)"
    unfolding keys_add_edge by auto
  finally show ?case .
qed

lemma distinct_fold_add_edge:
  "distinct (map fst adj) \<Longrightarrow> distinct (map fst (fold add_edge evs adj))"
  by (induction evs arbitrary: adj) (simp_all add: distinct_add_edge)

lemma sets_distinct_fold_add_edge:
  "sets_distinct adj \<Longrightarrow> sets_distinct (fold add_edge evs adj)"
  by (induction evs arbitrary: adj) (simp_all add: sets_distinct_add_edge)

lemma children_fold_add_edge:
  "children (fold add_edge evs adj) n =
     children adj n \<union> {user e | e. e \<in> set evs \<and> parent e = n}"
proof (induction evs arbitrary: adj)
  case Nil
  show ?case by simp
next
  case (Cons ev evs)
  have "children (fold add_edge (ev # evs) adj) n =
          children (add_edge ev adj) n \<union> {user e | e. e \<in> set evs \<and> parent e = n}"
    using Cons.IH [of "add_edge ev adj"] by simp
  also have "\<dots> = children adj n \<union> {user e | e. e \<in> set (ev # evs) \<and> parent e = n}"
    unfolding children_add_edge by auto
  finally show ?case .
qed

lemma build_tree_initial: "setdefault [] r = [(r, [])]"
  by (simp add: setdefault_def)

lemma children_initial: "children [(r, [])] n = {}"
  by (simp add: children_def)

lemma sets_distinct_initial: "sets_distinct [(r, [])]"
  by (rule sets_distinctI) (simp split: if_splits)

lemma build_tree_fold: "build_tree c = fold add_edge (events c) [(root_user c, [])]"
  by (simp add: build_tree_def build_tree_initial)

lemma keys_build_tree:
  "fst ` set (build_tree c) =
     insert (root_user c) (parent ` set (events c) \<union> user ` set (events c))"
  unfolding build_tree_fold keys_fold_add_edge by simp

lemma children_build_tree:
  "children (build_tree c) n = {user e | e. e \<in> set (events c) \<and> parent e = n}"
  unfolding build_tree_fold children_fold_add_edge children_initial by simp

lemma distinct_build_tree: "distinct (map fst (build_tree c))"
  unfolding build_tree_fold by (rule distinct_fold_add_edge) simp

lemma sets_distinct_build_tree: "sets_distinct (build_tree c)"
  unfolding build_tree_fold by (rule sets_distinct_fold_add_edge) (rule sets_distinct_initial)

lemma build_tree_entry:
  assumes "n \<in> fst ` set (build_tree c)"
  shows "\<exists>cs. map_of (build_tree c) n = Some cs \<and> distinct cs \<and>
           set cs = {user e | e. e \<in> set (events c) \<and> parent e = n}"
proof -
  from assms obtain cs where cs: "map_of (build_tree c) n = Some cs"
    by (metis map_of_eq_None_iff not_Some_eq)
  have "distinct cs"
    using sets_distinct_build_tree cs by (rule sets_distinctD)
  moreover have "set cs = children (build_tree c) n"
    using cs by (simp add: children_def)
  ultimately show ?thesis
    using cs children_build_tree [of c n] by simp
qed

text \<open>
  C6: the keys of \<open>build_tree(c)\<close> are the root of \<open>c\<close> and the parents and users of
  the events of \<open>c\<close>, each of them once and no other; the set of children of a key is
  the set of the users of the events whose parent is this key (the empty set for a key
  that is the parent of no event), so that the user of every event is a child of the
  parent of the event and the sets have no other member.
\<close>

theorem build_tree_spec:
  "fst ` set (build_tree c) =
     insert (root_user c) (parent ` set (events c) \<union> user ` set (events c)) \<and>
   distinct (map fst (build_tree c)) \<and>
   (\<forall>n \<in> fst ` set (build_tree c).
      \<exists>cs. map_of (build_tree c) n = Some cs \<and> distinct cs \<and>
           set cs = set (map user (filter (\<lambda>e. parent e = n) (events c))))"
proof (intro conjI ballI)
  show "fst ` set (build_tree c) =
     insert (root_user c) (parent ` set (events c) \<union> user ` set (events c))"
    by (rule keys_build_tree)
  show "distinct (map fst (build_tree c))"
    by (rule distinct_build_tree)
  fix n assume "n \<in> fst ` set (build_tree c)"
  then obtain cs where cs: "map_of (build_tree c) n = Some cs" "distinct cs"
    "set cs = {user e | e. e \<in> set (events c) \<and> parent e = n}"
    using build_tree_entry by blast
  have "{user e | e. e \<in> set (events c) \<and> parent e = n} =
          set (map user (filter (\<lambda>e. parent e = n) (events c)))"
    by auto
  then show "\<exists>cs. map_of (build_tree c) n = Some cs \<and> distinct cs \<and>
           set cs = set (map user (filter (\<lambda>e. parent e = n) (events c)))"
    using cs by simp
qed

theorem build_tree_spec_witness:
  "fst ` set (build_tree \<lparr>cid = 1, root_user = 0, publish_time = 0,
        events = [\<lparr>user = 1, parent = 0, time = 1\<rparr>, \<lparr>user = 2, parent = 5, time = 2\<rparr>]\<rparr>)
     = {0, 1, 2, 5} \<and>
   map_of (build_tree \<lparr>cid = 1, root_user = 0, publish_time = 0,
        events = [\<lparr>user = 1, parent = 0, time = 1\<rparr>, \<lparr>user = 2, parent = 5, time = 2\<rparr>]\<rparr>) 0
     = Some [1]"
  using build_tree_spec [of "\<lparr>cid = 1, root_user = 0, publish_time = 0,
        events = [\<lparr>user = 1, parent = 0, time = 1\<rparr>, \<lparr>user = 2, parent = 5, time = 2\<rparr>]\<rparr>"]
  by (simp add: build_tree_def add_edge_def setdefault_def set_add_def insert_commute)

section \<open>Breadth-first search\<close>

lemma bfs_inv_keys: "bfs_inv adj r depths w \<Longrightarrow> map fst depths = map fst adj"
  unfolding bfs_inv_def by blast

lemma bfs_inv_root: "bfs_inv adj r depths w \<Longrightarrow> map_of depths r = Some 0"
  unfolding bfs_inv_def by blast

lemma bfs_inv_path:
  "bfs_inv adj r depths w \<Longrightarrow> map_of depths v = Some d \<Longrightarrow>
     d = - 1 \<or> (0 \<le> d \<and> (r, v) \<in> edges adj ^^ nat d)"
  unfolding bfs_inv_def by blast

lemma bfs_inv_waiting:
  "bfs_inv adj r depths w \<Longrightarrow> u \<in> w \<Longrightarrow> \<exists>d. map_of depths u = Some d \<and> 0 \<le> d"
  unfolding bfs_inv_def by blast

lemma bfs_inv_settled:
  "bfs_inv adj r depths w \<Longrightarrow> map_of depths u = Some du \<Longrightarrow> 0 \<le> du \<Longrightarrow> u \<notin> w \<Longrightarrow>
     c \<in> children adj u \<Longrightarrow> \<exists>dc. map_of depths c = Some dc \<and> 0 \<le> dc \<and> dc \<le> du + 1"
  unfolding bfs_inv_def by blast

lemma bfs_invI:
  assumes "map fst depths = map fst adj"
    and "map_of depths r = Some 0"
    and "\<And>v d. map_of depths v = Some d \<Longrightarrow> d = - 1 \<or> (0 \<le> d \<and> (r, v) \<in> edges adj ^^ nat d)"
    and "\<And>u. u \<in> w \<Longrightarrow> \<exists>d. map_of depths u = Some d \<and> 0 \<le> d"
    and "\<And>u du c. map_of depths u = Some du \<Longrightarrow> 0 \<le> du \<Longrightarrow> u \<notin> w \<Longrightarrow> c \<in> children adj u \<Longrightarrow>
           \<exists>dc. map_of depths c = Some dc \<and> 0 \<le> dc \<and> dc \<le> du + 1"
  shows "bfs_inv adj r depths w"
  unfolding bfs_inv_def using assms by blast

lemma visitedD:
  "visited depths cur done \<Longrightarrow> c \<in> done \<Longrightarrow>
     \<exists>dc du. map_of depths cur = Some du \<and> map_of depths c = Some dc \<and> 0 \<le> dc \<and> dc \<le> du + 1"
  unfolding visited_def by blast

lemma visitedI:
  "(\<And>c. c \<in> done \<Longrightarrow>
     \<exists>dc du. map_of depths cur = Some du \<and> map_of depths c = Some dc \<and> 0 \<le> dc \<and> dc \<le> du + 1)
   \<Longrightarrow> visited depths cur done"
  unfolding visited_def by blast

lemma key_map_of_Some: "k \<in> fst ` set al \<Longrightarrow> \<exists>v. map_of al k = Some v"
  by (metis map_of_eq_None_iff not_Some_eq)

lemma children_are_keysD: "children_are_keys adj \<Longrightarrow> c \<in> children adj u \<Longrightarrow> c \<in> fst ` set adj"
proof -
  assume cl: "children_are_keys adj" and c: "c \<in> children adj u"
  then obtain cs where m: "map_of adj u = Some cs" and "c \<in> set cs"
    by (auto simp: children_def split: option.splits)
  from m have "(u, cs) \<in> set adj" by (rule map_of_SomeD)
  then have "set cs \<subseteq> fst ` set adj" using cl unfolding children_are_keys_def by blast
  then show ?thesis using \<open>c \<in> set cs\<close> by blast
qed

lemma set_get_children: "set (get_children adj u) = children adj u"
  by (simp add: get_children_def children_def split: option.splits)

lemma keys_image: "map fst depths = map fst adj \<Longrightarrow> fst ` set depths = fst ` set adj"
  by (metis set_map)

lemma undiscovered_update_found:
  "map_of al k = Some (- 1) \<Longrightarrow> v \<noteq> - 1 \<Longrightarrow>
     undiscovered (AList.update k v al) < undiscovered al"
  by (induction al) (auto simp: undiscovered_def split: if_splits)

lemma undiscovered_update_same:
  "map_of al k = Some d \<Longrightarrow> d \<noteq> - 1 \<Longrightarrow> v \<noteq> - 1 \<Longrightarrow>
     undiscovered (AList.update k v al) = undiscovered al"
  by (induction al) (auto simp: undiscovered_def split: if_splits)

lemma depth_sum_update_less:
  "map_of al k = Some d \<Longrightarrow> 0 \<le> v \<Longrightarrow> v < d \<Longrightarrow>
     depth_sum (AList.update k v al) < depth_sum al"
  by (induction al) (auto simp: depth_sum_def split: if_splits)

lemma smaller_trans: "smaller a b \<Longrightarrow> smaller b c \<Longrightarrow> smaller a c"
  unfolding smaller_def by linarith

lemma relax_update:
  assumes inv: "bfs_inv adj r depths (insert cur (set queue))"
    and vis: "visited depths cur done"
    and c: "c \<in> children adj cur"
    and dc: "map_of depths c = Some dc"
    and du: "map_of depths cur = Some du"
    and cond: "dc = - 1 \<or> dc > du + 1"
  shows "bfs_inv adj r (AList.update c (du + 1) depths) (insert cur (set (queue @ [c])))"
    and "visited (AList.update c (du + 1) depths) cur (insert c done)"
    and "smaller (AList.update c (du + 1) depths) depths"
proof -
  let ?d' = "AList.update c (du + 1) depths"
  have m': "map_of ?d' = (map_of depths)(c \<mapsto> du + 1)"
    by (rule AList.update_conv')
  have du0: "0 \<le> du"
    using bfs_inv_waiting [OF inv, of cur] du by auto
  have c_cur: "c \<noteq> cur"
    using cond dc du du0 by auto
  have c_r: "c \<noteq> r"
    using cond dc du0 bfs_inv_root [OF inv] by auto
  have path_cur: "(r, cur) \<in> edges adj ^^ nat du"
    using bfs_inv_path [OF inv du] du0 by auto
  have "(cur, c) \<in> edges adj"
    using c by (simp add: edges_def)
  with path_cur have "(r, c) \<in> edges adj ^^ Suc (nat du)"
    by (rule relpow_Suc_I)
  moreover have "Suc (nat du) = nat (du + 1)"
    using du0 by simp
  ultimately have path_c: "(r, c) \<in> edges adj ^^ nat (du + 1)"
    by simp
  show "bfs_inv adj r ?d' (insert cur (set (queue @ [c])))"
  proof (rule bfs_invI)
    have "c \<in> fst ` set depths" using dc by (rule map_of_Some_key)
    then have "map fst ?d' = map fst depths"
      by (simp add: AList.update_keys)
    then show "map fst ?d' = map fst adj"
      using bfs_inv_keys [OF inv] by simp
  next
    show "map_of ?d' r = Some 0"
      using bfs_inv_root [OF inv] c_r by (simp add: m')
  next
    fix v d assume a: "map_of ?d' v = Some d"
    show "d = - 1 \<or> (0 \<le> d \<and> (r, v) \<in> edges adj ^^ nat d)"
    proof (cases "v = c")
      case True
      then have "d = du + 1" using a by (simp add: m')
      then show ?thesis using True du0 path_c by simp
    next
      case False
      then have "map_of depths v = Some d" using a by (simp add: m')
      then show ?thesis by (rule bfs_inv_path [OF inv])
    qed
  next
    fix u assume a: "u \<in> insert cur (set (queue @ [c]))"
    show "\<exists>d. map_of ?d' u = Some d \<and> 0 \<le> d"
    proof (cases "u = c")
      case True
      then show ?thesis using du0 by (simp add: m')
    next
      case False
      then have "u \<in> insert cur (set queue)" using a by auto
      then have "\<exists>d. map_of depths u = Some d \<and> 0 \<le> d"
        by (rule bfs_inv_waiting [OF inv])
      then show ?thesis using False by (simp add: m')
    qed
  next
    fix u du' c'
    assume a: "map_of ?d' u = Some du'" and b: "0 \<le> du'"
      and w: "u \<notin> insert cur (set (queue @ [c]))" and ch: "c' \<in> children adj u"
    have uc: "u \<noteq> c" using w by auto
    then have ou: "map_of depths u = Some du'" using a by (simp add: m')
    have "u \<notin> insert cur (set queue)" using w by auto
    from bfs_inv_settled [OF inv ou b this ch]
    obtain dc' where dc': "map_of depths c' = Some dc'" "0 \<le> dc'" "dc' \<le> du' + 1"
      by blast
    show "\<exists>dc. map_of ?d' c' = Some dc \<and> 0 \<le> dc \<and> dc \<le> du' + 1"
    proof (cases "c' = c")
      case True
      then have "dc' = dc" using dc dc' by simp
      then have "du + 1 < dc'" using cond dc'(2) by auto
      then show ?thesis using True du0 dc'(3) by (simp add: m')
    next
      case False
      then show ?thesis using dc' by (simp add: m')
    qed
  qed
  show "visited ?d' cur (insert c done)"
  proof (rule visitedI)
    fix x assume a: "x \<in> insert c done"
    have cur': "map_of ?d' cur = Some du" using du c_cur by (simp add: m')
    show "\<exists>dc du. map_of ?d' cur = Some du \<and> map_of ?d' x = Some dc \<and> 0 \<le> dc \<and> dc \<le> du + 1"
    proof (cases "x = c")
      case True
      then show ?thesis using cur' du0 by (simp add: m')
    next
      case False
      then have "x \<in> done" using a by simp
      from visitedD [OF vis this] obtain dx du2 where
        x: "map_of depths cur = Some du2" "map_of depths x = Some dx" "0 \<le> dx" "dx \<le> du2 + 1"
        by blast
      have "du2 = du" using x(1) du by simp
      then have "dx \<le> du + 1" using x(4) by simp
      moreover have "map_of ?d' x = Some dx" using x(2) False by (simp add: m')
      ultimately show ?thesis using cur' x(3) by blast
    qed
  qed
  show "smaller ?d' depths"
  proof (cases "dc = - 1")
    case True
    then have "undiscovered ?d' < undiscovered depths"
      using dc du0 by (intro undiscovered_update_found) auto
    then show ?thesis by (simp add: smaller_def)
  next
    case False
    then have gt: "dc > du + 1" using cond by simp
    have "undiscovered ?d' = undiscovered depths"
      using dc False du0 by (intro undiscovered_update_same) auto
    moreover have "depth_sum ?d' < depth_sum depths"
      using dc du0 gt by (intro depth_sum_update_less) auto
    ultimately show ?thesis by (simp add: smaller_def)
  qed
qed

lemma relax_keep:
  assumes inv: "bfs_inv adj r depths (insert cur (set queue))"
    and vis: "visited depths cur done"
    and dc: "map_of depths c = Some dc"
    and du: "map_of depths cur = Some du"
    and cond: "\<not> (dc = - 1 \<or> dc > du + 1)"
  shows "visited depths cur (insert c done)"
proof (rule visitedI)
  fix x assume a: "x \<in> insert c done"
  show "\<exists>dc du. map_of depths cur = Some du \<and> map_of depths x = Some dc \<and> 0 \<le> dc \<and> dc \<le> du + 1"
  proof (cases "x = c")
    case True
    have "0 \<le> dc" using bfs_inv_path [OF inv dc] cond by auto
    then show ?thesis using True dc du cond by simp
  next
    case False
    then have "x \<in> done" using a by simp
    then show ?thesis by (rule visitedD [OF vis])
  qed
qed

lemma visit_children_Cons:
  assumes "map_of depths c = Some dc" and "map_of depths cur = Some du"
  shows "visit_children cur (c # cs) depths queue =
           (if dc = - 1 \<or> dc > du + 1
            then visit_children cur cs (AList.update c (du + 1) depths) (queue @ [c])
            else visit_children cur cs depths queue)"
  using assms by (simp add: getitem_def)

lemma visit_children_inv:
  assumes cl: "children_are_keys adj"
    and inv: "bfs_inv adj r depths (insert cur (set queue))"
    and vis: "visited depths cur done"
    and cs: "set cs \<subseteq> children adj cur"
  shows "\<exists>res. visit_children cur cs depths queue = Inr res \<and>
           inner_post adj r cur (done \<union> set cs) depths queue res"
  using inv vis cs
proof (induction cs arbitrary: depths queue "done")
  case Nil
  have "inner_post adj r cur (done \<union> set []) depths queue (depths, queue)"
    unfolding inner_post_def using Nil.prems(1,2) by simp
  then show ?case by simp
next
  case (Cons c cs)
  have c: "c \<in> children adj cur"
    using Cons.prems(3) by simp
  have rest: "set cs \<subseteq> children adj cur"
    using Cons.prems(3) by simp
  have "c \<in> fst ` set adj" using cl c by (rule children_are_keysD)
  moreover have "fst ` set depths = fst ` set adj"
    by (rule keys_image [OF bfs_inv_keys [OF Cons.prems(1)]])
  ultimately have "c \<in> fst ` set depths" by (simp only:)
  from key_map_of_Some [OF this]
  obtain dc where dc: "map_of depths c = Some dc" ..
  have "cur \<in> insert cur (set queue)" by (rule insertI1)
  from bfs_inv_waiting [OF Cons.prems(1) this]
  obtain du where du: "map_of depths cur = Some du" by (elim exE conjE)
  note eq = visit_children_Cons [OF dc du, of cs queue]
  have sets: "insert c done \<union> set cs = done \<union> set (c # cs)" by simp
  show ?case
  proof (cases "dc = - 1 \<or> dc > du + 1")
    case True
    let ?d1 = "AList.update c (du + 1) depths"
    note step = relax_update [OF Cons.prems(1) Cons.prems(2) c dc du True]
    from Cons.IH [OF step(1) step(2) rest]
    obtain res where r1: "visit_children cur cs ?d1 (queue @ [c]) = Inr res"
      and r2: "inner_post adj r cur (insert c done \<union> set cs) ?d1 (queue @ [c]) res"
      by blast
    have e: "visit_children cur (c # cs) depths queue = Inr res"
      unfolding eq using True r1 by simp
    have "smaller (fst res) depths"
    proof (cases "res = (?d1, queue @ [c])")
      case True
      then show ?thesis using step(3) by simp
    next
      case False
      then have "smaller (fst res) ?d1" using r2 unfolding inner_post_def by blast
      then show ?thesis using step(3) by (rule smaller_trans)
    qed
    then have "inner_post adj r cur (done \<union> set (c # cs)) depths queue res"
      using r2 unfolding inner_post_def sets by blast
    with e show ?thesis by blast
  next
    case False
    note keep = relax_keep [OF Cons.prems(1) Cons.prems(2) dc du False]
    from Cons.IH [OF Cons.prems(1) keep rest]
    obtain res where r1: "visit_children cur cs depths queue = Inr res"
      and r2: "inner_post adj r cur (insert c done \<union> set cs) depths queue res"
      by blast
    have e: "visit_children cur (c # cs) depths queue = Inr res"
      unfolding eq using False r1 by simp
    have "inner_post adj r cur (done \<union> set (c # cs)) depths queue res"
      using r2 unfolding sets by simp
    with e show ?thesis by blast
  qed
qed

lemma wf_bfs_rel: "wf bfs_rel"
  unfolding bfs_rel_def by (intro wf_inv_image wf_lex_prod wf_less_than)

lemma bfs_rel_pop: "((d, q), (d, x # q)) \<in> bfs_rel"
  by (simp add: bfs_rel_def)

lemma bfs_rel_smaller: "smaller d' d \<Longrightarrow> ((d', q'), (d, q)) \<in> bfs_rel"
  unfolding smaller_def by (auto simp: bfs_rel_def)

lemma bfs_inv_drop_current:
  assumes inv: "bfs_inv adj r depths (insert cur w)"
    and vis: "visited depths cur (children adj cur)"
  shows "bfs_inv adj r depths w"
proof (rule bfs_invI)
  show "map fst depths = map fst adj" by (rule bfs_inv_keys [OF inv])
  show "map_of depths r = Some 0" by (rule bfs_inv_root [OF inv])
next
  fix v d assume "map_of depths v = Some d"
  then show "d = - 1 \<or> (0 \<le> d \<and> (r, v) \<in> edges adj ^^ nat d)"
    by (rule bfs_inv_path [OF inv])
next
  fix u assume "u \<in> w"
  then have "u \<in> insert cur w" by simp
  then show "\<exists>d. map_of depths u = Some d \<and> 0 \<le> d"
    by (rule bfs_inv_waiting [OF inv])
next
  fix u du c
  assume u: "map_of depths u = Some du" and du: "0 \<le> du" and w: "u \<notin> w"
    and c: "c \<in> children adj u"
  show "\<exists>dc. map_of depths c = Some dc \<and> 0 \<le> dc \<and> dc \<le> du + 1"
  proof (cases "u = cur")
    case True
    then have "c \<in> children adj cur" using c by simp
    from visitedD [OF vis this] obtain dc du2 where
      x: "map_of depths cur = Some du2" "map_of depths c = Some dc" "0 \<le> dc" "dc \<le> du2 + 1"
      by blast
    have "du2 = du" using x(1) u True by simp
    then have "dc \<le> du + 1" using x(4) by simp
    then show ?thesis using x(2,3) by blast
  next
    case False
    then have "u \<notin> insert cur w" using w by simp
    then show ?thesis by (rule bfs_inv_settled [OF inv u du _ c])
  qed
qed

lemma bfs_induct [case_names less]:
  assumes step: "\<And>d q. (\<And>d' q'. ((d', q'), (d, q)) \<in> bfs_rel \<Longrightarrow> P d' q') \<Longrightarrow> P d q"
  shows "P d q"
proof -
  have "P (fst x) (snd x)" for x
  proof (induction x rule: wf_induct_rule [OF wf_bfs_rel])
    case (1 x)
    show ?case
    proof (rule step)
      fix d' q' assume "((d', q'), (fst x, snd x)) \<in> bfs_rel"
      then have "((d', q'), x) \<in> bfs_rel" by simp
      from 1 [OF this] show "P d' q'" by simp
    qed
  qed
  from this [of "(d, q)"] show ?thesis by simp
qed

lemma bfs_loop_Nil: "bfs_loop adj depths [] = Some (Inr depths)"
  by (subst bfs_loop.simps) simp

lemma bfs_loop_Cons:
  "visit_children cur (get_children adj cur) depths rest = Inr (d', q') \<Longrightarrow>
     bfs_loop adj depths (cur # rest) = bfs_loop adj d' q'"
  by (subst bfs_loop.simps) simp

lemma bfs_loop_correct:
  assumes cl: "children_are_keys adj"
    and inv: "bfs_inv adj r depths (set queue)"
  shows "\<exists>depths'. bfs_loop adj depths queue = Some (Inr depths') \<and> bfs_inv adj r depths' {}"
  using inv
proof (induction depths queue rule: bfs_induct)
  case (less depths queue)
  show ?case
  proof (cases queue)
    case Nil
    then have "bfs_inv adj r depths {}" using less.prems by simp
    then show ?thesis unfolding Nil bfs_loop_Nil by blast
  next
    case (Cons cur rest)
    have inv1: "bfs_inv adj r depths (insert cur (set rest))"
      using less.prems unfolding Cons by simp
    have vis0: "visited depths cur {}"
      by (rule visitedI) simp
    have sub: "set (get_children adj cur) \<subseteq> children adj cur"
      by (simp add: set_get_children)
    from visit_children_inv [OF cl inv1 vis0 sub]
    obtain res where v: "visit_children cur (get_children adj cur) depths rest = Inr res"
      and post: "inner_post adj r cur ({} \<union> set (get_children adj cur)) depths rest res"
      by blast
    obtain d' q' where res: "res = (d', q')" by (cases res)
    have inv2: "bfs_inv adj r d' (insert cur (set q'))"
      using post unfolding inner_post_def res by simp
    have vis2: "visited d' cur (children adj cur)"
      using post unfolding inner_post_def res by (simp add: set_get_children)
    have prog: "(d', q') = (depths, rest) \<or> smaller d' depths"
      using post unfolding inner_post_def res by simp
    have inv3: "bfs_inv adj r d' (set q')"
      using inv2 vis2 by (rule bfs_inv_drop_current)
    have "((d', q'), (depths, queue)) \<in> bfs_rel"
    proof (cases "(d', q') = (depths, rest)")
      case True
      then show ?thesis unfolding Cons by (simp add: bfs_rel_pop)
    next
      case False
      then have "smaller d' depths" using prog by blast
      then show ?thesis by (rule bfs_rel_smaller)
    qed
    from less.IH [OF this inv3]
    obtain depths' where "bfs_loop adj d' q' = Some (Inr depths')" and "bfs_inv adj r depths' {}"
      by blast
    moreover have "bfs_loop adj depths queue = bfs_loop adj d' q'"
      unfolding Cons using v unfolding res by (rule bfs_loop_Cons)
    ultimately show ?thesis by simp
  qed
qed

lemma initial_keys: "map fst (map (\<lambda>(node, cs). (node, - 1 :: int)) adj) = map fst adj"
  by (induction adj) auto

lemma initial_depth:
  "map_of (map (\<lambda>(node, cs). (node, - 1 :: int)) adj) v = Some d \<Longrightarrow> d = - 1"
  by (induction adj) (auto split: if_splits)

lemma bfs_inv_initial:
  assumes r: "r \<in> fst ` set adj"
  shows "bfs_inv adj r (AList.update r 0 (map (\<lambda>(node, cs). (node, - 1)) adj)) (set [r])"
proof (rule bfs_invI)
  let ?d0 = "map (\<lambda>(node, cs). (node, - 1 :: int)) adj"
  let ?d1 = "AList.update r 0 ?d0"
  have m: "map_of ?d1 = (map_of ?d0)(r \<mapsto> 0)"
    by (rule AList.update_conv')
  have "r \<in> set (map fst ?d0)"
    unfolding initial_keys using r by simp
  then have "map fst ?d1 = map fst ?d0"
    by (simp only: AList.update_keys if_True)
  then show "map fst ?d1 = map fst adj"
    by (simp only: initial_keys)
  show "map_of ?d1 r = Some 0"
    by (simp add: m)
  {
    fix v d assume a: "map_of ?d1 v = Some d"
    show "d = - 1 \<or> (0 \<le> d \<and> (r, v) \<in> edges adj ^^ nat d)"
    proof (cases "v = r")
      case True
      then have "d = 0" using a by (simp add: m)
      then show ?thesis using True by simp
    next
      case False
      then have "map_of ?d0 v = Some d" using a by (simp add: m)
      then have "d = - 1" by (rule initial_depth)
      then show ?thesis by simp
    qed
  }
  {
    fix u assume "u \<in> set [r]"
    then have "u = r" by simp
    then show "\<exists>d. map_of ?d1 u = Some d \<and> 0 \<le> d"
      by (simp add: m)
  }
  {
    fix u du c
    assume a: "map_of ?d1 u = Some du" and b: "0 \<le> du" and w: "u \<notin> set [r]"
    have "u \<noteq> r" using w by simp
    then have "map_of ?d0 u = Some du" using a by (simp add: m)
    then have "du = - 1" by (rule initial_depth)
    then show "\<exists>dc. map_of ?d1 c = Some dc \<and> 0 \<le> dc \<and> dc \<le> du + 1"
      using b by simp
  }
qed

lemma compute_depths_inv:
  assumes cl: "children_are_keys adj" and r: "r \<in> fst ` set adj"
  shows "\<exists>depths. compute_depths adj r = Some (Inr depths) \<and> bfs_inv adj r depths {}"
proof -
  have "compute_depths adj r =
          bfs_loop adj (AList.update r 0 (map (\<lambda>(node, cs). (node, - 1)) adj)) [r]"
    using r by (simp add: compute_depths_def)
  then show ?thesis
    using bfs_loop_correct [OF cl bfs_inv_initial [OF r]] by simp
qed

lemma settled_upper:
  assumes inv: "bfs_inv adj r depths {}"
  shows "(r, v) \<in> edges adj ^^ n \<Longrightarrow> \<exists>d. map_of depths v = Some d \<and> 0 \<le> d \<and> d \<le> int n"
proof (induction n arbitrary: v)
  case 0
  then have "v = r" by simp
  then show ?case using bfs_inv_root [OF inv] by simp
next
  case (Suc n)
  from Suc.prems obtain u where ru: "(r, u) \<in> edges adj ^^ n" and uv: "(u, v) \<in> edges adj"
    by (rule relpow_Suc_E)
  from Suc.IH [OF ru] obtain du where du: "map_of depths u = Some du" "0 \<le> du" "du \<le> int n"
    by blast
  have c: "v \<in> children adj u" using uv by (simp add: edges_def)
  have e: "u \<notin> {}" by simp
  from bfs_inv_settled [OF inv du(1) du(2) e c]
  obtain dv where "map_of depths v = Some dv" "0 \<le> dv" "dv \<le> du + 1"
    by blast
  then show ?case using du(3) by simp
qed

lemma settled_path:
  assumes inv: "bfs_inv adj r depths {}" and d: "map_of depths v = Some d" and "0 \<le> d"
  shows "(r, v) \<in> edges adj ^^ nat d"
  using bfs_inv_path [OF inv d] assms(3) by auto

lemma settled_least:
  assumes inv: "bfs_inv adj r depths {}" and reach: "(r, v) \<in> (edges adj)\<^sup>*"
  shows "map_of depths v = Some (int (LEAST n. (r, v) \<in> edges adj ^^ n))"
proof -
  from reach obtain n where n: "(r, v) \<in> edges adj ^^ n"
    by (auto simp: rtrancl_power)
  from settled_upper [OF inv n] obtain d where d: "map_of depths v = Some d" "0 \<le> d"
    by blast
  have p: "(r, v) \<in> edges adj ^^ nat d"
    using inv d by (rule settled_path)
  have "(LEAST n. (r, v) \<in> edges adj ^^ n) = nat d"
  proof (rule Least_equality)
    show "(r, v) \<in> edges adj ^^ nat d" by (rule p)
  next
    fix m assume "(r, v) \<in> edges adj ^^ m"
    from settled_upper [OF inv this] obtain d' where "map_of depths v = Some d'" "d' \<le> int m"
      by blast
    then show "nat d \<le> m" using d(1) by simp
  qed
  then show ?thesis using d by simp
qed

lemma settled_unreachable:
  assumes inv: "bfs_inv adj r depths {}" and v: "v \<in> fst ` set adj"
    and unreach: "(r, v) \<notin> (edges adj)\<^sup>*"
  shows "map_of depths v = Some (- 1)"
proof -
  have "v \<in> fst ` set depths"
    using v keys_image [OF bfs_inv_keys [OF inv]] by (simp only:)
  from key_map_of_Some [OF this] obtain d where d: "map_of depths v = Some d" ..
  have "d = - 1"
  proof (rule ccontr)
    assume "d \<noteq> - 1"
    then have "(r, v) \<in> edges adj ^^ nat d" using bfs_inv_path [OF inv d] by simp
    then have "(r, v) \<in> (edges adj)\<^sup>*" by (auto simp: rtrancl_power)
    then show False using unreach by simp
  qed
  then show ?thesis using d by simp
qed

lemma settled_parent:
  assumes inv: "bfs_inv adj r depths {}" and d: "map_of depths v = Some d" and d1: "1 \<le> d"
  shows "\<exists>u. v \<in> children adj u \<and> map_of depths u = Some (d - 1)"
proof -
  have "(r, v) \<in> edges adj ^^ nat d"
    using inv d by (rule settled_path) (use d1 in simp)
  moreover have "nat d = Suc (nat (d - 1))" using d1 by simp
  ultimately have "(r, v) \<in> edges adj ^^ Suc (nat (d - 1))" by simp
  then obtain u where ru: "(r, u) \<in> edges adj ^^ nat (d - 1)" and uv: "(u, v) \<in> edges adj"
    by (rule relpow_Suc_E)
  from settled_upper [OF inv ru] obtain du where
    du: "map_of depths u = Some du" "0 \<le> du" "du \<le> int (nat (d - 1))"
    by blast
  have "(r, u) \<in> edges adj ^^ nat du"
    using inv du(1,2) by (rule settled_path)
  then have "(r, v) \<in> edges adj ^^ Suc (nat du)"
    using uv by (rule relpow_Suc_I)
  from settled_upper [OF inv this] obtain d' where "map_of depths v = Some d'" "d' \<le> int (Suc (nat du))"
    by blast
  then have "d \<le> du + 1" using d du(2) by simp
  then have "du = d - 1" using du(3) d1 by simp
  moreover have "v \<in> children adj u" using uv by (simp add: edges_def)
  ultimately show ?thesis using du(1) by blast
qed

lemma children_are_keys_build_tree: "children_are_keys (build_tree c)"
  unfolding children_are_keys_def
proof (intro ballI, clarify)
  fix n cs x
  assume e: "(n, cs) \<in> set (build_tree c)" and x: "x \<in> set cs"
  have "map_of (build_tree c) n = Some cs"
    using distinct_build_tree e by (rule map_of_is_SomeI)
  then have "set cs = children (build_tree c) n"
    by (simp add: children_def)
  then have "x \<in> {user e | e. e \<in> set (events c) \<and> parent e = n}"
    using x by (simp only: children_build_tree)
  then have "x \<in> user ` set (events c)" by blast
  then show "x \<in> fst ` set (build_tree c)"
    unfolding keys_build_tree by blast
qed

text \<open>
  The adjacency of a cascade and its root are in the domain of the theorem below:
  \<open>compute_depths\<close> returns on them.
\<close>

lemma compute_depths_build_tree:
  "\<exists>depths. compute_depths (build_tree c) (root_user c) = Some (Inr depths) \<and>
     bfs_inv (build_tree c) (root_user c) depths {}"
proof (rule compute_depths_inv [OF children_are_keys_build_tree])
  show "root_user c \<in> fst ` set (build_tree c)"
    unfolding keys_build_tree by simp
qed

text \<open>
  C1, as stated, fails for an adjacency with a child that is no key: with
  \<open>adj = {1: {2}}\<close> and the root 1, \<open>depths[2]\<close> raises \<open>KeyError\<close>.
\<close>

theorem compute_depths_KeyError_counterexample:
  "compute_depths [(1, [2])] 1 = Some (Inl KeyError)"
  by (simp add: compute_depths_def bfs_loop.simps get_children_def getitem_def)

text \<open>
  C1, amended: for every adjacency in which every child is a key, and every root that is
  a key, \<open>compute_depths\<close> returns; the result has the keys of the adjacency, the depth
  0 for the root, the depth \<open>-1\<close> for every key that cannot be reached from the root, and
  for every key that can be reached the length of a shortest walk from the root. Every
  node with a depth \<open>d \<ge> 1\<close> is a child of some node with the depth \<open>d - 1\<close>.
\<close>

theorem compute_depths_shortest_paths:
  assumes "children_are_keys adj" and "r \<in> fst ` set adj"
  shows "\<exists>depths. compute_depths adj r = Some (Inr depths) \<and>
           map fst depths = map fst adj \<and>
           map_of depths r = Some 0 \<and>
           (\<forall>v \<in> fst ` set adj. (r, v) \<notin> (edges adj)\<^sup>* \<longrightarrow> map_of depths v = Some (- 1)) \<and>
           (\<forall>v \<in> fst ` set adj. (r, v) \<in> (edges adj)\<^sup>* \<longrightarrow>
              map_of depths v = Some (int (LEAST n. (r, v) \<in> edges adj ^^ n))) \<and>
           (\<forall>v d. map_of depths v = Some d \<and> 1 \<le> d \<longrightarrow>
              (\<exists>u. v \<in> children adj u \<and> map_of depths u = Some (d - 1)))"
proof -
  from compute_depths_inv [OF assms] obtain depths where
    c: "compute_depths adj r = Some (Inr depths)" and inv: "bfs_inv adj r depths {}"
    by blast
  have "map fst depths = map fst adj" by (rule bfs_inv_keys [OF inv])
  moreover have "map_of depths r = Some 0" by (rule bfs_inv_root [OF inv])
  moreover have "\<forall>v \<in> fst ` set adj. (r, v) \<notin> (edges adj)\<^sup>* \<longrightarrow> map_of depths v = Some (- 1)"
    using settled_unreachable [OF inv] by blast
  moreover have "\<forall>v \<in> fst ` set adj. (r, v) \<in> (edges adj)\<^sup>* \<longrightarrow>
              map_of depths v = Some (int (LEAST n. (r, v) \<in> edges adj ^^ n))"
    using settled_least [OF inv] by blast
  moreover have "\<forall>v d. map_of depths v = Some d \<and> 1 \<le> d \<longrightarrow>
              (\<exists>u. v \<in> children adj u \<and> map_of depths u = Some (d - 1))"
    using settled_parent [OF inv] by blast
  ultimately show ?thesis using c by blast
qed

theorem compute_depths_shortest_paths_witness:
  "\<exists>depths. compute_depths [(1, [2, 3]), (2, [4]), (3, [4]), (4, []), (5, [1])] 1 = Some (Inr depths) \<and>
     map fst depths = [1, 2, 3, 4, 5] \<and> map_of depths 1 = Some 0"
proof -
  have h1: "children_are_keys [(1, [2, 3]), (2, [4]), (3, [4]), (4, []), (5, [1])]"
    by (simp add: children_are_keys_def)
  have h2: "1 \<in> fst ` set [(1, [2, 3]), (2, [4]), (3, [4]), (4, []), (5, [1 :: int])]"
    by simp
  from compute_depths_shortest_paths [OF h1 h2] show ?thesis
    by auto
qed

section \<open>Temporal features\<close>

text \<open>
  C4: for a prefix whose events have the times 1, 3, 4, 10, in this order,
  \<open>temporal_features\<close> returns \<open>time_to_k = 10\<close>, \<open>mean_inter_time = 3\<close>,
  \<open>var_inter_time = 14/3\<close>, \<open>half_life_ratio = 3/10\<close> and \<open>speed_change = 1/4\<close>.
\<close>

theorem temporal_features_example:
  assumes "map time (events prefix) = [1, 3, 4, 10]"
  shows "temporal_features prefix =
           [(''time_to_k'', 10), (''mean_inter_time'', 3), (''var_inter_time'', 14 / 3),
            (''half_life_ratio'', 3 / 10), (''speed_change'', 1 / 4)]"
proof -
  obtain e1 e2 e3 e4 where evs: "events prefix = [e1, e2, e3, e4]"
    and t: "time e1 = 1" "time e2 = 3" "time e3 = 4" "time e4 = 10"
    using assms by (auto simp: map_eq_Cons_conv)
  show ?thesis
    by (simp add: temporal_features_def evs t Let_def np_mean_def np_var_def power2_eq_square)
qed

theorem temporal_features_example_witness:
  "temporal_features \<lparr>cid = 1, root_user = 0, publish_time = 0,
      events = [\<lparr>user = 1, parent = 0, time = 1\<rparr>, \<lparr>user = 2, parent = 0, time = 3\<rparr>,
                \<lparr>user = 3, parent = 1, time = 4\<rparr>, \<lparr>user = 4, parent = 2, time = 10\<rparr>]\<rparr> =
           [(''time_to_k'', 10), (''mean_inter_time'', 3), (''var_inter_time'', 14 / 3),
            (''half_life_ratio'', 3 / 10), (''speed_change'', 1 / 4)]"
  using temporal_features_example [of "\<lparr>cid = 1, root_user = 0, publish_time = 0,
      events = [\<lparr>user = 1, parent = 0, time = 1\<rparr>, \<lparr>user = 2, parent = 0, time = 3\<rparr>,
                \<lparr>user = 3, parent = 1, time = 4\<rparr>, \<lparr>user = 4, parent = 2, time = 10\<rparr>]\<rparr>"]
  by simp

section \<open>Structural metrics\<close>

lemma compute_depths_root_only:
  assumes "map_of adj r = Some []"
  shows "compute_depths adj r =
           Some (Inr (AList.update r 0 (map (\<lambda>(node, cs). (node, - 1)) adj)))"
proof -
  let ?d1 = "AList.update r 0 (map (\<lambda>(node, cs). (node, - 1 :: int)) adj)"
  have r: "r \<in> fst ` set adj" using assms by (rule map_of_Some_key)
  have "visit_children r (get_children adj r) ?d1 [] = Inr (?d1, [])"
    using assms by (simp add: get_children_def)
  then have "bfs_loop adj ?d1 [r] = bfs_loop adj ?d1 []"
    by (rule bfs_loop_Cons)
  then have "bfs_loop adj ?d1 [r] = Some (Inr ?d1)"
    by (simp only: bfs_loop_Nil)
  then show ?thesis using r by (simp add: compute_depths_def)
qed

lemma filter_update_root:
  "\<forall>p \<in> set al. snd p < 0 \<Longrightarrow> r \<in> fst ` set al \<Longrightarrow>
     filter (\<lambda>(node, d). d \<ge> (0 :: int)) (AList.update r 0 al) = [(r, 0)]"
proof (induction al)
  case Nil
  then show ?case by simp
next
  case (Cons p al)
  obtain k v where p: "p = (k, v)" by (cases p)
  have neg: "\<forall>q \<in> set al. snd q < 0" and v: "v < 0"
    using Cons.prems(1) p by simp_all
  show ?case
  proof (cases "k = r")
    case True
    have "filter (\<lambda>(node, d). d \<ge> (0 :: int)) al = []"
      using neg by (auto simp: filter_empty_conv)
    then show ?thesis using True p by simp
  next
    case False
    then have "r \<in> fst ` set al" using Cons.prems(2) p by auto
    from Cons.IH [OF neg this] show ?thesis using False p v by simp
  qed
qed

lemma initial_negative: "\<forall>p \<in> set (map (\<lambda>(node, cs). (node, - 1 :: int)) adj). snd p < 0"
  by auto

lemma reachable_root_only:
  assumes "r \<in> fst ` set adj"
  shows "filter (\<lambda>(node, d). d \<ge> (0 :: int))
           (AList.update r 0 (map (\<lambda>(node, cs). (node, - 1)) adj)) = [(r, 0)]"
proof (rule filter_update_root [OF initial_negative])
  show "r \<in> fst ` set (map (\<lambda>(node, cs). (node, - 1 :: int)) adj)"
    using assms initial_keys [of adj] by (metis set_map)
qed

lemma structural_metrics_absent:
  "r \<notin> fst ` set adj \<Longrightarrow> structural_metrics adj r = Some (Inr no_tree)"
  by (simp add: structural_metrics_def)

lemma structural_metrics_root_only:
  assumes "map_of adj r = Some []"
  shows "structural_metrics adj r = Some (Inr no_tree)"
proof -
  have r: "r \<in> fst ` set adj" using assms by (rule map_of_Some_key)
  show ?thesis
    using assms r
    by (simp add: structural_metrics_def compute_depths_root_only reachable_root_only [OF r]
          getitem_def AList.update_conv' get_children_def no_tree_def)
qed

text \<open>
  C3: \<open>structural_metrics(adj, r)\<close> returns \<open>depth = 0\<close>, \<open>avg_depth = 0\<close>,
  \<open>leaves = 1\<close>, \<open>branching_factor = 0\<close> and \<open>wiener_root_avg = 0\<close> when \<open>r\<close> is no key
  of \<open>adj\<close>, and also when \<open>adj\<close> maps \<open>r\<close> to the empty set of children: the root is
  then the only node that is reached, and it is the one leaf.
\<close>

theorem structural_metrics_degenerate:
  "(r \<notin> fst ` set adj \<longrightarrow>
      structural_metrics adj r =
        Some (Inr [(''depth'', 0), (''avg_depth'', 0), (''leaves'', 1),
                   (''branching_factor'', 0), (''wiener_root_avg'', 0)])) \<and>
   (map_of adj r = Some [] \<longrightarrow>
      structural_metrics adj r =
        Some (Inr [(''depth'', 0), (''avg_depth'', 0), (''leaves'', 1),
                   (''branching_factor'', 0), (''wiener_root_avg'', 0)]))"
  using structural_metrics_absent [of r adj] structural_metrics_root_only [of adj r]
  by (simp add: no_tree_def)

theorem structural_metrics_degenerate_witness:
  "structural_metrics [(1, [2]), (2, [])] 5 =
        Some (Inr [(''depth'', 0), (''avg_depth'', 0), (''leaves'', 1),
                   (''branching_factor'', 0), (''wiener_root_avg'', 0)]) \<and>
   structural_metrics [(0, []), (7, [8]), (8, [])] 0 =
        Some (Inr [(''depth'', 0), (''avg_depth'', 0), (''leaves'', 1),
                   (''branching_factor'', 0), (''wiener_root_avg'', 0)])"
  using structural_metrics_degenerate [of 5 "[(1, [2]), (2, [])]"]
    structural_metrics_degenerate [of 0 "[(0, []), (7, [8]), (8, [])]"]
  by simp

lemma structural_metrics_fields:
  "structural_metrics adj r = Some (Inr m) \<Longrightarrow>
     \<exists>x. map_of m ''avg_depth'' = Some x \<and> map_of m ''wiener_root_avg'' = Some x"
  unfolding structural_metrics_def Let_def
  by (auto simp: no_tree_def split: if_splits option.splits sum.splits)

lemma getitems_keys: "set ks \<subseteq> fst ` set d \<Longrightarrow> \<exists>vs. getitems d ks = Inr vs"
proof (induction ks)
  case Nil
  show ?case by simp
next
  case (Cons k ks)
  then have "k \<in> fst ` set d" by simp
  from key_map_of_Some [OF this] obtain v where "map_of d k = Some v" ..
  moreover from Cons obtain vs where "getitems d ks = Inr vs" by auto
  ultimately show ?case by (simp add: getitem_def)
qed

lemma non_leaves_keys:
  "set (filter (\<lambda>node. length (get_children adj node) > 0) ns) \<subseteq> fst ` set adj"
proof
  fix n assume "n \<in> set (filter (\<lambda>node. length (get_children adj node) > 0) ns)"
  then have "get_children adj n \<noteq> []" by simp
  then obtain cs where "map_of adj n = Some cs"
    by (auto simp: get_children_def split: option.splits)
  then show "n \<in> fst ` set adj" by (rule map_of_Some_key)
qed

lemma reachable_keys:
  "set (map fst (filter (\<lambda>(node, d). d \<ge> (0 :: int)) depths)) \<subseteq> fst ` set depths"
  by auto

lemma structural_metrics_returns:
  assumes cl: "children_are_keys adj"
  shows "\<exists>m. structural_metrics adj r = Some (Inr m)"
proof (cases "r \<in> fst ` set adj")
  case False
  then show ?thesis by (simp add: structural_metrics_def)
next
  case True
  from compute_depths_inv [OF cl True] obtain depths where
    c: "compute_depths adj r = Some (Inr depths)" by blast
  let ?reachable = "map fst (filter (\<lambda>(node, d). d \<ge> 0) depths)"
  let ?non_leaves = "filter (\<lambda>node. length (get_children adj node) > 0) ?reachable"
  obtain ds where ds: "getitems depths ?reachable = Inr ds"
    using getitems_keys [OF reachable_keys] by blast
  obtain css where css: "getitems adj ?non_leaves = Inr css"
    using getitems_keys [OF non_leaves_keys] by blast
  show ?thesis
    unfolding structural_metrics_def Let_def
    using True ds css by (simp add: c split: sum.splits)
qed

text \<open>
  C7: in every mapping that \<open>structural_metrics(adj, r)\<close> returns, the fields
  \<open>avg_depth\<close> and \<open>wiener_root_avg\<close> are present and equal. It returns a mapping for
  every adjacency in which every child is a key.
\<close>

theorem structural_metrics_wiener_avg:
  "(\<forall>m. structural_metrics adj r = Some (Inr m) \<longrightarrow>
        (\<exists>x. map_of m ''avg_depth'' = Some x \<and> map_of m ''wiener_root_avg'' = Some x)) \<and>
   (children_are_keys adj \<longrightarrow> (\<exists>m. structural_metrics adj r = Some (Inr m)))"
proof (intro conjI allI impI)
  fix m assume "structural_metrics adj r = Some (Inr m)"
  then show "\<exists>x. map_of m ''avg_depth'' = Some x \<and> map_of m ''wiener_root_avg'' = Some x"
    by (rule structural_metrics_fields)
next
  assume "children_are_keys adj"
  then show "\<exists>m. structural_metrics adj r = Some (Inr m)"
    by (rule structural_metrics_returns)
qed

theorem structural_metrics_wiener_avg_witness:
  "structural_metrics [(0, [1]), (1, [2]), (2, [])] 0 =
     Some (Inr [(''depth'', 2), (''avg_depth'', 1), (''leaves'', 1),
                (''branching_factor'', 1), (''wiener_root_avg'', 1)]) \<and>
   (\<exists>x. map_of [(''depth'', 2), (''avg_depth'', 1 :: real), (''leaves'', 1),
                (''branching_factor'', 1), (''wiener_root_avg'', 1)] ''avg_depth'' = Some x \<and>
        map_of [(''depth'', 2), (''avg_depth'', 1 :: real), (''leaves'', 1),
                (''branching_factor'', 1), (''wiener_root_avg'', 1)] ''wiener_root_avg'' = Some x)"
proof -
  have e: "structural_metrics [(0, [1]), (1, [2]), (2, [])] 0 =
     Some (Inr [(''depth'', 2), (''avg_depth'', 1), (''leaves'', 1),
                (''branching_factor'', 1), (''wiener_root_avg'', 1)])"
    by (simp add: structural_metrics_def compute_depths_def bfs_loop.simps
          get_children_def getitem_def Let_def)
  from structural_metrics_wiener_avg [of "[(0, [1]), (1, [2]), (2, [])]" 0] e
  show ?thesis by blast
qed

end
